theory Spec2Isabelle
  imports Main
begin

section \<open>Go strings as byte sequences\<close>

text \<open>
  A Go string is a sequence of bytes; \<open>char\<close> is a byte.  The three characters that
  cannot be written inside a string literal here get names.
\<close>

abbreviation BSLASH :: char where "BSLASH \<equiv> CHR 0x5C"
abbreviation DQUOTE :: char where "DQUOTE \<equiv> CHR 0x22"
abbreviation NEWLINE :: char where "NEWLINE \<equiv> CHR 0x0A"

text \<open>\<open>strings.HasPrefix\<close> followed by slicing the prefix off.\<close>

fun stripPrefix :: "string \<Rightarrow> string \<Rightarrow> string option" where
  "stripPrefix [] s = Some s"
| "stripPrefix (p # ps) [] = None"
| "stripPrefix (p # ps) (c # cs) = (if p = c then stripPrefix ps cs else None)"

text \<open>
  \<open>strings.TrimSpace\<close> removes leading and trailing Unicode white space
  (\<open>unicode.IsSpace\<close>): the six ASCII characters and, in UTF-8, U+0085, U+00A0, U+1680,
  U+2000 to U+200A, U+2028, U+2029, U+202F, U+205F and U+3000.
\<close>

definition isAsciiSpace :: "char \<Rightarrow> bool" where
  "isAsciiSpace c \<longleftrightarrow> c \<in> {CHR 0x09, CHR 0x0A, CHR 0x0B, CHR 0x0C, CHR 0x0D, CHR 0x20}"

fun trimLeftSpace :: "string \<Rightarrow> string" where
  "trimLeftSpace [] = []"
| "trimLeftSpace (c # cs) =
     (if isAsciiSpace c then trimLeftSpace cs
      else if c = CHR 0xC2 then
        (case cs of
           d # ds \<Rightarrow> if d = CHR 0x85 \<or> d = CHR 0xA0 then trimLeftSpace ds else c # cs
         | [] \<Rightarrow> c # cs)
      else if c = CHR 0xE1 then
        (case cs of
           d # e # es \<Rightarrow> if d = CHR 0x9A \<and> e = CHR 0x80 then trimLeftSpace es else c # cs
         | _ \<Rightarrow> c # cs)
      else if c = CHR 0xE2 then
        (case cs of
           d # e # es \<Rightarrow>
             if d = CHR 0x80 \<and> ((of_char e :: nat) \<in> {0x80..0x8A} \<or> e = CHR 0xA8 \<or> e = CHR 0xA9 \<or> e = CHR 0xAF)
             then trimLeftSpace es
             else if d = CHR 0x81 \<and> e = CHR 0x9F then trimLeftSpace es
             else c # cs
         | _ \<Rightarrow> c # cs)
      else if c = CHR 0xE3 then
        (case cs of
           d # e # es \<Rightarrow> if d = CHR 0x80 \<and> e = CHR 0x80 then trimLeftSpace es else c # cs
         | _ \<Rightarrow> c # cs)
      else c # cs)"

text \<open>The same white space read from the end of the string, on the reversed bytes.\<close>

fun trimLeftSpaceRev :: "string \<Rightarrow> string" where
  "trimLeftSpaceRev [] = []"
| "trimLeftSpaceRev (c # cs) =
     (if isAsciiSpace c then trimLeftSpaceRev cs
      else
        (case cs of
           d # ds \<Rightarrow>
             if d = CHR 0xC2 \<and> (c = CHR 0x85 \<or> c = CHR 0xA0) then trimLeftSpaceRev ds
             else
               (case ds of
                  e # es \<Rightarrow>
                    if e = CHR 0xE1 \<and> d = CHR 0x9A \<and> c = CHR 0x80 then trimLeftSpaceRev es
                    else if e = CHR 0xE2 \<and> d = CHR 0x80
                            \<and> ((of_char c :: nat) \<in> {0x80..0x8A} \<or> c = CHR 0xA8 \<or> c = CHR 0xA9 \<or> c = CHR 0xAF)
                      then trimLeftSpaceRev es
                    else if e = CHR 0xE2 \<and> d = CHR 0x81 \<and> c = CHR 0x9F then trimLeftSpaceRev es
                    else if e = CHR 0xE3 \<and> d = CHR 0x80 \<and> c = CHR 0x80 then trimLeftSpaceRev es
                    else c # cs
                | [] \<Rightarrow> c # cs)
         | [] \<Rightarrow> c # cs))"

definition strings_TrimSpace :: "string \<Rightarrow> string" where
  "strings_TrimSpace s = rev (trimLeftSpaceRev (rev (trimLeftSpace s)))"

text \<open>\<open>strings.Split(s, sep)\<close> for a one-byte separator: always at least one part.\<close>

fun strings_Split :: "string \<Rightarrow> char \<Rightarrow> string list" where
  "strings_Split [] d = [[]]"
| "strings_Split (c # cs) d =
     (if c = d then [] # strings_Split cs d
      else (case strings_Split cs d of x # xs \<Rightarrow> (c # x) # xs | [] \<Rightarrow> [[c]]))"

text \<open>\<open>strings.SplitN(s, sep, 2)\<close> for a one-byte separator: cut at the first one.\<close>

definition strings_SplitN2 :: "string \<Rightarrow> char \<Rightarrow> string list" where
  "strings_SplitN2 s d =
     (if d \<in> set s then [takeWhile (\<lambda>c. c \<noteq> d) s, tl (dropWhile (\<lambda>c. c \<noteq> d) s)] else [s])"

text \<open>
  The ASCII letters differ in bit 5 only: \<open>c - 0x20\<close> on a lower-case letter clears it,
  \<open>c + 0x20\<close> on an upper-case letter sets it.
\<close>

definition clearBit5 :: "char \<Rightarrow> char" where
  "clearBit5 c = (case c of Char b0 b1 b2 b3 b4 b5 b6 b7 \<Rightarrow> Char b0 b1 b2 b3 b4 False b6 b7)"

definition setBit5 :: "char \<Rightarrow> char" where
  "setBit5 c = (case c of Char b0 b1 b2 b3 b4 b5 b6 b7 \<Rightarrow> Char b0 b1 b2 b3 b4 True b6 b7)"

text \<open>
  \<open>strings.ToUpper\<close> of a one-byte string, as in \<open>strings.ToUpper(part[0:1])\<close>: an ASCII
  lower-case letter is raised, any other ASCII byte is kept, and a byte from 0x80 up is not
  valid UTF-8 on its own, so \<open>strings.Map\<close> writes U+FFFD (EF BF BD) in its place.
\<close>

definition asciiUpper :: "char \<Rightarrow> char" where
  "asciiUpper c =
     (let n = (of_char c :: nat) in if 0x61 \<le> n \<and> n \<le> 0x7A then clearBit5 c else c)"

definition toUpper1 :: "char \<Rightarrow> string" where
  "toUpper1 c =
     (if (of_char c :: nat) < 0x80 then [asciiUpper c] else [CHR 0xEF, CHR 0xBF, CHR 0xBD])"

text \<open>
  The word \<open>fallback\<close> under case folding.  Both \<open>strings.ToLower\<close> and the
  \<open>(?i)\<close> flag of \<open>regexp\<close> fold the Kelvin sign U+212A (E2 84 AA) to \<open>k\<close>; no other
  non-ASCII character folds to a letter of the word.
\<close>

definition lowerAscii :: "char \<Rightarrow> char" where
  "lowerAscii c =
     (let n = (of_char c :: nat) in if 0x41 \<le> n \<and> n \<le> 0x5A then setBit5 c else c)"

fun stripPrefixFold :: "string \<Rightarrow> string \<Rightarrow> string option" where
  "stripPrefixFold [] s = Some s"
| "stripPrefixFold (p # ps) [] = None"
| "stripPrefixFold (p # ps) (c # cs) =
     (if lowerAscii p = lowerAscii c then stripPrefixFold ps cs else None)"

definition stripFallbackWord :: "string \<Rightarrow> string option" where
  "stripFallbackWord s =
     (case stripPrefixFold ''fallbac'' s of
        None \<Rightarrow> None
      | Some r \<Rightarrow>
          (case stripPrefixFold ''k'' r of
             Some r' \<Rightarrow> Some r'
           | None \<Rightarrow> stripPrefix [CHR 0xE2, CHR 0x84, CHR 0xAA] r))"

text \<open>\<open>strings.Contains(strings.ToLower(tag), "fallback")\<close>.\<close>

fun containsFallback :: "string \<Rightarrow> bool" where
  "containsFallback [] = False"
| "containsFallback (c # cs) = (stripFallbackWord (c # cs) \<noteq> None \<or> containsFallback cs)"


section \<open>The pattern set\<close>

subsection \<open>\<open>escapeGo\<close>: \<^verbatim>\<open>\{\{.*?\}\}\<close>\<close>

text \<open>
  Go's \<open>regexp\<close> returns the leftmost match and, among those, the one a backtracking matcher
  finds first.  \<open>.\<close> does not match a newline.  A match at the head of the input is
  returned with the text that follows it.
\<close>

fun escapeGo_lazy :: "string \<Rightarrow> (string \<times> string) option" where
  "escapeGo_lazy [] = None"
| "escapeGo_lazy (c # cs) =
     (case stripPrefix ''}}'' (c # cs) of
        Some r \<Rightarrow> Some ([], r)
      | None \<Rightarrow>
          if c = NEWLINE then None
          else (case escapeGo_lazy cs of None \<Rightarrow> None | Some (x, r) \<Rightarrow> Some (c # x, r)))"

definition escapeGo_match_at :: "string \<Rightarrow> (string \<times> string) option" where
  "escapeGo_match_at s =
     (case stripPrefix ''{{'' s of
        None \<Rightarrow> None
      | Some r \<Rightarrow>
          (case escapeGo_lazy r of
             None \<Rightarrow> None
           | Some (x, rest) \<Rightarrow> Some (''{{'' @ x @ ''}}'', rest)))"

subsection \<open>\<open>tagsToGo\<close>: \<^verbatim>\<open>(?i)\\?(\{\%|\%7B\%25)+(.*?)(\%\}|\%25\%7D)+\<close>\<close>

definition stripOpen :: "string \<Rightarrow> string option" where
  "stripOpen s =
     (case stripPrefix ''{%'' s of Some r \<Rightarrow> Some r | None \<Rightarrow> stripPrefixFold ''%7B%25'' s)"

definition stripClose :: "string \<Rightarrow> string option" where
  "stripClose s =
     (case stripPrefix ''%}'' s of Some r \<Rightarrow> Some r | None \<Rightarrow> stripPrefixFold ''%25%7D'' s)"

lemma stripPrefix_length: "stripPrefix p s = Some r \<Longrightarrow> length s = length p + length r"
  by (induction p s rule: stripPrefix.induct) (auto split: if_splits)

lemma stripPrefixFold_length: "stripPrefixFold p s = Some r \<Longrightarrow> length s = length p + length r"
  by (induction p s rule: stripPrefixFold.induct) (auto split: if_splits)

lemma stripOpen_length: "stripOpen s = Some r \<Longrightarrow> length r < length s"
  by (auto simp: stripOpen_def split: option.splits
           dest!: stripPrefix_length stripPrefixFold_length)

lemma stripClose_length: "stripClose s = Some r \<Longrightarrow> length r < length s"
  by (auto simp: stripClose_def split: option.splits
           dest!: stripPrefix_length stripPrefixFold_length)

text \<open>The closing group \<open>(...)+\<close> is greedy and nothing follows it: it takes every closer.\<close>

function tagCloses :: "string \<Rightarrow> string" where
  "tagCloses s = (case stripClose s of None \<Rightarrow> s | Some r \<Rightarrow> tagCloses r)"
  by pat_completeness auto
termination
  by (relation "measure length") (auto dest: stripClose_length)

declare tagCloses.simps [simp del]

text \<open>
  The lazy group \<open>(.*?)\<close> grows one byte at a time until a closer follows; the result is
  the text of the group and the text after the match.
\<close>

fun tagBody :: "string \<Rightarrow> (string \<times> string) option" where
  "tagBody [] = None"
| "tagBody (c # cs) =
     (case stripClose (c # cs) of
        Some r \<Rightarrow> Some ([], tagCloses r)
      | None \<Rightarrow>
          if c = NEWLINE then None
          else (case tagBody cs of None \<Rightarrow> None | Some (x, r) \<Rightarrow> Some (c # x, r)))"

text \<open>
  The opening group \<open>(...)+\<close> is greedy: after one opener it first tries another, and
  falls back to the rest of the pattern when that fails.
\<close>

function tagOpens :: "string \<Rightarrow> (string \<times> string) option" where
  "tagOpens s =
     (case stripOpen s of
        None \<Rightarrow> None
      | Some r \<Rightarrow> (case tagOpens r of Some res \<Rightarrow> Some res | None \<Rightarrow> tagBody r))"
  by pat_completeness auto
termination
  by (relation "measure length") (auto dest: stripOpen_length)

declare tagOpens.simps [simp del]

definition tagsToGo_match_at :: "string \<Rightarrow> (string \<times> string) option" where
  "tagsToGo_match_at s =
     (case s of
        [] \<Rightarrow> None
      | c # cs \<Rightarrow>
          if c = BSLASH
          then (case tagOpens cs of Some res \<Rightarrow> Some res | None \<Rightarrow> tagOpens s)
          else tagOpens s)"

text \<open>\<open>tagsToGo.FindStringSubmatch(s)[2]\<close>: the lazy group of the leftmost match.\<close>

fun tagsToGo_FindStringSubmatch2 :: "string \<Rightarrow> string option" where
  "tagsToGo_FindStringSubmatch2 [] = None"
| "tagsToGo_FindStringSubmatch2 (c # cs) =
     (case tagsToGo_match_at (c # cs) of
        Some (x, r) \<Rightarrow> Some x
      | None \<Rightarrow> tagsToGo_FindStringSubmatch2 cs)"

subsection \<open>\<open>findFallback\<close>: \<^verbatim>\<open>(?i)\s*(fallback)\s*=\<close>\<close>

text \<open>\<open>\s\<close> is the ASCII class \<^verbatim>\<open>[\t\n\f\r ]\<close>.\<close>

definition isRegexSpace :: "char \<Rightarrow> bool" where
  "isRegexSpace c \<longleftrightarrow> c \<in> {CHR 0x09, CHR 0x0A, CHR 0x0C, CHR 0x0D, CHR 0x20}"

definition findFallback_match_at :: "string \<Rightarrow> string option" where
  "findFallback_match_at s =
     (case stripFallbackWord (dropWhile isRegexSpace s) of
        None \<Rightarrow> None
      | Some r \<Rightarrow>
          (case dropWhile isRegexSpace r of
             [] \<Rightarrow> None
           | c # r' \<Rightarrow> if c = CHR ''='' then Some r' else None))"


section \<open>The transpiler\<close>

subsection \<open>Replacing every match\<close>

text \<open>
  \<open>ReplaceAllString\<close> and \<open>ReplaceAllStringFunc\<close> walk the input from the left, replace
  the leftmost match, and go on after it.  None of the patterns matches the empty string.
\<close>

lemma escapeGo_lazy_length: "escapeGo_lazy s = Some (x, r) \<Longrightarrow> length r < length s"
  by (induction s arbitrary: x) (auto split: option.splits if_splits dest: stripPrefix_length)

lemma escapeGo_match_at_length: "escapeGo_match_at s = Some (m, r) \<Longrightarrow> length r < length s"
  by (auto simp: escapeGo_match_at_def split: option.splits
           dest!: stripPrefix_length escapeGo_lazy_length)

lemma tagCloses_length: "length (tagCloses s) \<le> length s"
proof (induction s rule: tagCloses.induct)
  case (1 s)
  show ?case
  proof (cases "stripClose s")
    case None
    then show ?thesis by (simp add: tagCloses.simps [of s])
  next
    case (Some r)
    with "1" stripClose_length [OF Some] show ?thesis
      by (simp add: tagCloses.simps [of s])
  qed
qed

lemma tagBody_length: "tagBody s = Some (x, r) \<Longrightarrow> length r < length s"
proof (induction s arbitrary: x)
  case Nil
  then show ?case by simp
next
  case (Cons c cs)
  show ?case
  proof (cases "stripClose (c # cs)")
    case None
    with Cons show ?thesis by (auto split: option.splits if_splits)
  next
    case (Some q)
    with Cons.prems have "r = tagCloses q" by simp
    with stripClose_length [OF Some] tagCloses_length [of q] show ?thesis by simp
  qed
qed

lemma tagOpens_length: "tagOpens s = Some (x, r) \<Longrightarrow> length r < length s"
proof (induction s arbitrary: x r rule: tagOpens.induct)
  case (1 s)
  from "1.prems" obtain q where q: "stripOpen s = Some q"
    by (auto simp: tagOpens.simps [of s] split: option.splits)
  show ?case
  proof (cases "tagOpens q")
    case None
    with "1.prems" q have "tagBody q = Some (x, r)" by (simp add: tagOpens.simps [of s])
    with tagBody_length stripOpen_length [OF q] show ?thesis by fastforce
  next
    case (Some res)
    with "1.prems" q have "tagOpens q = Some (x, r)" by (simp add: tagOpens.simps [of s])
    with "1.IH" [OF q] stripOpen_length [OF q] show ?thesis by fastforce
  qed
qed

lemma tagsToGo_match_at_length: "tagsToGo_match_at s = Some (x, r) \<Longrightarrow> length r < length s"
  by (cases s) (auto simp: tagsToGo_match_at_def split: if_splits option.splits
                     dest: tagOpens_length)

lemma stripFallbackWord_length: "stripFallbackWord s = Some r \<Longrightarrow> length r < length s"
  by (auto simp: stripFallbackWord_def split: option.splits
           dest!: stripPrefix_length stripPrefixFold_length)

lemma length_dropWhile_le': "length (dropWhile P s) \<le> length s"
  by (induction s) auto

lemma findFallback_match_at_length: "findFallback_match_at s = Some r \<Longrightarrow> length r < length s"
proof -
  assume a: "findFallback_match_at s = Some r"
  then obtain q where q: "stripFallbackWord (dropWhile isRegexSpace s) = Some q"
    by (auto simp: findFallback_match_at_def split: option.splits)
  with a have "dropWhile isRegexSpace q = CHR ''='' # r"
    by (auto simp: findFallback_match_at_def split: list.splits if_splits)
  then have "length r < length q"
    using length_dropWhile_le' [of isRegexSpace q] by simp
  with stripFallbackWord_length [OF q] length_dropWhile_le' [of isRegexSpace s]
  show ?thesis by simp
qed

text \<open>\<open>findFallback.ReplaceAllString(s, "")\<close>.\<close>

function findFallback_ReplaceAll_empty :: "string \<Rightarrow> string" where
  "findFallback_ReplaceAll_empty [] = []"
| "findFallback_ReplaceAll_empty (c # cs) =
     (case findFallback_match_at (c # cs) of
        Some r \<Rightarrow> findFallback_ReplaceAll_empty r
      | None \<Rightarrow> c # findFallback_ReplaceAll_empty cs)"
  by pat_completeness auto
termination
  by (relation "measure length") (auto dest: findFallback_match_at_length)

subsection \<open>\<open>replaceTemplateFallback\<close>\<close>

text \<open>
  \<open>tag[2 : len(tag)-2]\<close> is reached only when the tag contains the eight bytes of
  \<open>fallback\<close>, so the slice is in range.
\<close>

definition replaceTemplateFallback :: "string \<Rightarrow> string" where
  "replaceTemplateFallback tag =
     (if \<not> containsFallback tag then tag
      else
        let tagBody = take (length tag - 4) (drop 2 tag);
            parts = strings_SplitN2 tagBody (CHR '','')
        in if length parts \<noteq> 2 then tag
           else
             let variable = strings_TrimSpace (parts ! 0);
                 fallback = strings_TrimSpace (findFallback_ReplaceAll_empty (parts ! 1))
             in ''{{if '' @ variable @ ''}}{{'' @ variable @ ''}}{{else}}'' @ fallback @ ''{{end}}'')"

subsection \<open>\<open>prepareTemplateTags\<close>\<close>

text \<open>The first pass: \<open>escapeGo.ReplaceAllStringFunc\<close> with its function literal.\<close>

definition escapeGoFunc :: "string \<Rightarrow> string" where
  "escapeGoFunc match = (if DQUOTE \<in> set match then match else ''{{ '' @ [DQUOTE] @ match @ [DQUOTE] @ '' }}'')"

function escapeGo_ReplaceAll :: "string \<Rightarrow> string" where
  "escapeGo_ReplaceAll [] = []"
| "escapeGo_ReplaceAll (c # cs) =
     (case escapeGo_match_at (c # cs) of
        Some (m, r) \<Rightarrow> escapeGoFunc m @ escapeGo_ReplaceAll r
      | None \<Rightarrow> c # escapeGo_ReplaceAll cs)"
  by pat_completeness auto
termination
  by (relation "measure length") (auto dest: escapeGo_match_at_length)

text \<open>
  A run-time panic of Go: indexing or slicing out of range.  \<open>part[0:1]\<close> panics on an
  empty part.
\<close>

datatype panic = IndexOutOfRange | SliceBoundsOutOfRange

type_synonym usedVars = "string \<rightharpoonup> string list"

definition upperFirst :: "string \<Rightarrow> panic + string" where
  "upperFirst part =
     (case part of [] \<Rightarrow> Inl SliceBoundsOutOfRange | c # cs \<Rightarrow> Inr (toUpper1 c @ cs))"

text \<open>
  The function literal of the second pass.  It reads and updates \<open>usedVars\<close>, so the map is
  passed in and returned.  Reading a missing key of a Go map gives the nil slice.
\<close>

definition lookupVars :: "usedVars \<Rightarrow> string \<Rightarrow> string list" where
  "lookupVars used k = (case used k of None \<Rightarrow> [] | Some l \<Rightarrow> l)"

text \<open>
  The two \<open>if\<close> statements that record a variable: make the entry of the namespace if
  there is none, then append the key unless \<open>sliceutil.InStringSlice\<close> finds it.
\<close>

definition recordVar :: "usedVars \<Rightarrow> string \<Rightarrow> string \<Rightarrow> usedVars" where
  "recordVar used ns key =
     (let used1 = (if used ns = None then used(ns \<mapsto> []) else used)
      in if key \<in> set (lookupVars used1 ns) then used1
         else used1(ns \<mapsto> lookupVars used1 ns @ [key]))"

definition tagFunc :: "usedVars \<Rightarrow> string \<Rightarrow> panic + (string \<times> usedVars)" where
  "tagFunc used match =
     (case match of
        [] \<Rightarrow> Inl IndexOutOfRange
      | m0 # m1 \<Rightarrow>
          if m0 = BSLASH then Inr (m1, used)
          else
            (case tagsToGo_FindStringSubmatch2 match of
               None \<Rightarrow> Inr (match, used)
             | Some sub2 \<Rightarrow>
                 let tagParts = strings_Split (strings_TrimSpace sub2) (CHR ''.'')
                 in if length tagParts < 2 then Inr (match, used)
                    else
                      (case upperFirst (tagParts ! 0) of
                         Inl e \<Rightarrow> Inl e
                       | Inr p0 \<Rightarrow>
                           (case upperFirst (tagParts ! 1) of
                              Inl e \<Rightarrow> Inl e
                            | Inr p1 \<Rightarrow>
                                Inr (replaceTemplateFallback (''{{.'' @ p0 @ ''.'' @ p1 @ ''}}''),
                                     recordVar used p0 p1)))))"

text \<open>\<open>tagsToGo.ReplaceAllStringFunc\<close>; a panic in the function literal ends the pass.\<close>

function tagsToGo_ReplaceAll :: "usedVars \<Rightarrow> string \<Rightarrow> panic + (string \<times> usedVars)" where
  "tagsToGo_ReplaceAll used [] = Inr ([], used)"
| "tagsToGo_ReplaceAll used (c # cs) =
     (case tagsToGo_match_at (c # cs) of
        None \<Rightarrow>
          (case tagsToGo_ReplaceAll used cs of
             Inl e \<Rightarrow> Inl e
           | Inr (out, u) \<Rightarrow> Inr (c # out, u))
      | Some (x, r) \<Rightarrow>
          (case tagFunc used (take (length (c # cs) - length r) (c # cs)) of
             Inl e \<Rightarrow> Inl e
           | Inr (rep, used') \<Rightarrow>
               (case tagsToGo_ReplaceAll used' r of
                  Inl e \<Rightarrow> Inl e
                | Inr (out, u) \<Rightarrow> Inr (rep @ out, u))))"
  by pat_completeness auto
termination
proof (relation "measure (\<lambda>(u, s). length s)", goal_cases)
  case 1
  show ?case by simp
next
  case (2 used c cs)
  show ?case by simp
next
  case (3 used c cs x2 x r)
  from 3(1) 3(2) have "tagsToGo_match_at (c # cs) = Some (x, r)" by simp
  from tagsToGo_match_at_length [OF this] show ?case by simp
qed

definition prepareTemplateTags :: "string \<Rightarrow> panic + (string \<times> usedVars)" where
  "prepareTemplateTags body = tagsToGo_ReplaceAll Map.empty (escapeGo_ReplaceAll body)"


section \<open>The resolver\<close>

text \<open>
  \<open>Keys\<close> is \<open>map[string]interface{}\<close>.  A Go map is a reference: \<open>replaceVariables\<close>
  stores the map that \<open>TemplateKeys\<close> returns and then writes into that very map.  The maps
  handed out by the capabilities therefore live in a store, and \<open>TemplateKeys\<close> returns
  a reference into it, or nil.  The two methods take the context and the parent keys, which
  the resolver passes on unchanged.
\<close>

datatype val = VString string | VBool bool | VInt int | VNil

type_synonym Keys = "string \<rightharpoonup> val"

type_synonym ref = nat

type_synonym store = "ref \<Rightarrow> Keys"

record ('c, 'p) Templateable =
  TemplateKeys :: "'c \<Rightarrow> 'p \<Rightarrow> ref option"
  TemplateCallbacks :: "'c \<Rightarrow> string \<Rightarrow> 'p \<Rightarrow> string \<times> bool"

text \<open>
  An entry of \<open>params\<close> is the capability's own map, or the map made by \<open>make(Keys)\<close>
  when the capability returned nil; a map made here is reachable from this entry only.
\<close>

datatype entry = Shared ref | Fresh Keys

text \<open>The calls made on the capabilities, in order, with the namespace they were made for.\<close>

datatype call = CallTemplateKeys string | CallTemplateCallbacks string string

text \<open>\<open>params[key][v] = result\<close>\<close>

definition setKey :: "entry \<Rightarrow> store \<Rightarrow> string \<Rightarrow> val \<Rightarrow> entry \<times> store" where
  "setKey e h v x =
     (case e of
        Shared r \<Rightarrow> (Shared r, h(r := (h r)(v \<mapsto> x)))
      | Fresh m \<Rightarrow> (Fresh (m(v \<mapsto> x)), h))"

text \<open>\<open>for _, v := range used\<close>\<close>

fun usedLoop ::
  "('c, 'p) Templateable \<Rightarrow> 'c \<Rightarrow> 'p \<Rightarrow> string \<Rightarrow> string list
     \<Rightarrow> entry \<times> store \<times> call list \<Rightarrow> entry \<times> store \<times> call list" where
  "usedLoop val ctx parentKeys key [] st = st"
| "usedLoop val ctx parentKeys key (v # used) (e, h, log) =
     (let (result, setIt) = TemplateCallbacks val ctx v parentKeys;
          log' = log @ [CallTemplateCallbacks key v];
          (e', h') = (if setIt then setKey e h v (VString result) else (e, h))
      in usedLoop val ctx parentKeys key used (e', h', log'))"

text \<open>
  \<open>for key, value := range keys\<close>.  Go visits the entries of a map in an order of its own
  choosing; the capabilities are given as the list of entries in the order visited.
\<close>

fun keysLoop ::
  "'c \<Rightarrow> 'p \<Rightarrow> (string \<times> ('c, 'p) Templateable) list \<Rightarrow> usedVars
     \<Rightarrow> (string \<rightharpoonup> entry) \<times> store \<times> call list \<Rightarrow> (string \<rightharpoonup> entry) \<times> store \<times> call list" where
  "keysLoop ctx parentKeys [] usedVars st = st"
| "keysLoop ctx parentKeys ((key, val) # keys) usedVars (params, h, log) =
     (let e0 = (case TemplateKeys val ctx parentKeys of None \<Rightarrow> Fresh Map.empty | Some r \<Rightarrow> Shared r);
          log0 = log @ [CallTemplateKeys key];
          (e1, h1, log1) =
            (case usedVars key of
               Some used \<Rightarrow> usedLoop val ctx parentKeys key used (e0, h, log0)
             | None \<Rightarrow> (e0, h, log0))
      in keysLoop ctx parentKeys keys usedVars (params(key \<mapsto> e1), h1, log1))"

text \<open>The parameter tree the template is executed on: every entry read through the store.\<close>

definition paramTree :: "(string \<rightharpoonup> entry) \<Rightarrow> store \<Rightarrow> (string \<rightharpoonup> Keys)" where
  "paramTree params h key =
     (case params key of
        None \<Rightarrow> None
      | Some (Shared r) \<Rightarrow> Some (h r)
      | Some (Fresh m) \<Rightarrow> Some m)"

section \<open>The render adapter\<close>

text \<open>
  The template engine (\<open>text/template\<close>, \<open>html/template\<close>) is not part of this package: it
  is a parameter.  An error is known by its dynamic type, \<open>text/template.ExecError\<close> or
  another, and by the text of \<open>Error()\<close>.
\<close>

datatype goerror = ExecError string | OtherError string

fun errorText :: "goerror \<Rightarrow> string" where
  "errorText (ExecError m) = m"
| "errorText (OtherError m) = m"

datatype flavour = TextTemplate | HtmlTemplate

record 't engine =
  Parse :: "flavour \<Rightarrow> bool \<Rightarrow> string \<Rightarrow> goerror + 't"
  Execute :: "'t \<Rightarrow> (string \<rightharpoonup> Keys) \<Rightarrow> goerror + string"

text \<open>
  The second argument of \<open>Parse\<close> is the option \<open>missingkey=error\<close>.  Every function
  returns Go's pair of a string and an error (\<open>None\<close> is nil), with the store and the calls
  made so far.
\<close>

type_synonym result = "(string \<times> goerror option) \<times> store \<times> call list"

definition replaceVariables ::
  "'t engine \<Rightarrow> 'c \<Rightarrow> 't \<Rightarrow> string \<Rightarrow> (string \<times> ('c, 'p) Templateable) list \<Rightarrow> 'p \<Rightarrow> usedVars
     \<Rightarrow> store \<Rightarrow> call list \<Rightarrow> result" where
  "replaceVariables E ctx tmpl body keys parentKeys usedVars h log =
     (let (params, h', log') = keysLoop ctx parentKeys keys usedVars (Map.empty, h, log)
      in case Execute E tmpl (paramTree params h') of
           Inl err \<Rightarrow> ((body, Some err), h', log')
         | Inr output \<Rightarrow> ((output, None), h', log'))"

definition Text ::
  "'t engine \<Rightarrow> 'c \<Rightarrow> string \<Rightarrow> (string \<times> ('c, 'p) Templateable) list \<Rightarrow> 'p
     \<Rightarrow> store \<Rightarrow> call list \<Rightarrow> panic + result" where
  "Text E ctx body0 keys parentKeys h log =
     (case prepareTemplateTags body0 of
        Inl p \<Rightarrow> Inl p
      | Inr (body, usedVars) \<Rightarrow>
          Inr (case Parse E TextTemplate False body of
                 Inl err \<Rightarrow> ((body, Some err), h, log)
               | Inr tmpl \<Rightarrow> replaceVariables E ctx tmpl body keys parentKeys usedVars h log))"

definition HTML ::
  "'t engine \<Rightarrow> 'c \<Rightarrow> string \<Rightarrow> (string \<times> ('c, 'p) Templateable) list \<Rightarrow> 'p
     \<Rightarrow> store \<Rightarrow> call list \<Rightarrow> panic + result" where
  "HTML E ctx body0 keys parentKeys h log =
     (case prepareTemplateTags body0 of
        Inl p \<Rightarrow> Inl p
      | Inr (body, usedVars) \<Rightarrow>
          Inr (case Parse E HtmlTemplate False body of
                 Inl err \<Rightarrow> ((body, Some err), h, log)
               | Inr tmpl \<Rightarrow> replaceVariables E ctx tmpl body keys parentKeys usedVars h log))"

definition HTMLSafe ::
  "'t engine \<Rightarrow> 'c \<Rightarrow> string \<Rightarrow> (string \<times> ('c, 'p) Templateable) list \<Rightarrow> 'p
     \<Rightarrow> store \<Rightarrow> call list \<Rightarrow> panic + result" where
  "HTMLSafe E ctx body keys parentKeys h log =
     (case HTML E ctx body keys parentKeys h log of
        Inl p \<Rightarrow> Inl p
      | Inr ((out, err), h', log') \<Rightarrow>
          if err \<noteq> None then Text E ctx body keys parentKeys h' log'
          else Inr ((out, err), h', log'))"


section \<open>The error translator\<close>

subsection \<open>\<open>parseTemplateError\<close>\<close>

text \<open>
  The pattern is \<^verbatim>\<open>executing "email" at <\.(.*?)>.*?"(.*?)"\<close>, where the source
  also puts a backslash before \<^verbatim>\<open><\<close>, \<^verbatim>\<open>>\<close> and each \<^verbatim>\<open>"\<close>
  after the first two: an escaped punctuation character stands for itself.  Each function
  matches the rest of the pattern from one point on and returns the text of the groups still
  to be closed.
\<close>

fun pte_group2 :: "string \<Rightarrow> string option" where
  "pte_group2 [] = None"
| "pte_group2 (c # cs) =
     (if c = DQUOTE then Some []
      else if c = NEWLINE then None
      else (case pte_group2 cs of None \<Rightarrow> None | Some g \<Rightarrow> Some (c # g)))"

fun pte_gap :: "string \<Rightarrow> string option" where
  "pte_gap [] = None"
| "pte_gap (c # cs) =
     (case (if c = DQUOTE then pte_group2 cs else None) of
        Some g \<Rightarrow> Some g
      | None \<Rightarrow> if c = NEWLINE then None else pte_gap cs)"

fun pte_group1 :: "string \<Rightarrow> (string \<times> string) option" where
  "pte_group1 [] = None"
| "pte_group1 (c # cs) =
     (case (if c = CHR ''>'' then pte_gap cs else None) of
        Some g2 \<Rightarrow> Some ([], g2)
      | None \<Rightarrow>
          if c = NEWLINE then None
          else (case pte_group1 cs of None \<Rightarrow> None | Some (g1, g2) \<Rightarrow> Some (c # g1, g2)))"

definition pte_match_at :: "string \<Rightarrow> (string \<times> string) option" where
  "pte_match_at s =
     (case stripPrefix (''executing '' @ [DQUOTE] @ ''email'' @ [DQUOTE] @ '' at <.'') s of
        None \<Rightarrow> None
      | Some r \<Rightarrow> pte_group1 r)"

text \<open>
  \<open>parseTemplateError.FindAllStringSubmatch(s, -1)\<close>, of which the code reads the first
  match only: its groups 1 and 2.
\<close>

fun parseTemplateError_first :: "string \<Rightarrow> (string \<times> string) option" where
  "parseTemplateError_first [] = None"
| "parseTemplateError_first (c # cs) =
     (case pte_match_at (c # cs) of
        Some g \<Rightarrow> Some g
      | None \<Rightarrow> parseTemplateError_first cs)"

subsection \<open>\<open>TestSafe\<close>\<close>

text \<open>
  The last part of \<open>TestSafe\<close>, from \<open>if err != nil\<close> on: what is returned for the text and
  the error that the two attempts left.  \<open>fmt.Errorf\<close> makes an error that is not an
  \<open>ExecError\<close>.
\<close>

definition translateError :: "string \<Rightarrow> goerror option \<Rightarrow> string \<times> goerror option" where
  "translateError out err =
     (case err of
        None \<Rightarrow> (out, None)
      | Some (OtherError m) \<Rightarrow> (out, Some (OtherError m))
      | Some (ExecError m) \<Rightarrow>
          (case parseTemplateError_first m of
             None \<Rightarrow> (out, Some (ExecError m))
           | Some (g1, g2) \<Rightarrow>
               ([], Some (OtherError (''unknown variable '' @ g2 @ '' at '' @ g1)))))"

definition TestSafe ::
  "'t engine \<Rightarrow> 'c \<Rightarrow> string \<Rightarrow> (string \<times> ('c, 'p) Templateable) list \<Rightarrow> 'p
     \<Rightarrow> store \<Rightarrow> call list \<Rightarrow> panic + result" where
  "TestSafe E ctx body0 keys parentKeys h log =
     (case prepareTemplateTags body0 of
        Inl p \<Rightarrow> Inl p
      | Inr (body, usedVars) \<Rightarrow>
          Inr (case Parse E HtmlTemplate True body of
                 Inl err \<Rightarrow> (([], Some err), h, log)
               | Inr tmpl \<Rightarrow>
                   (case replaceVariables E ctx tmpl body keys parentKeys usedVars h log of
                      ((out, None), h1, log1) \<Rightarrow> (translateError out None, h1, log1)
                    | ((out, Some err1), h1, log1) \<Rightarrow>
                        (case Parse E TextTemplate True body of
                           Inl err \<Rightarrow> (([], Some err), h1, log1)
                         | Inr tmpl2 \<Rightarrow>
                             (case replaceVariables E ctx tmpl2 body keys parentKeys usedVars h1 log1 of
                                ((out2, err2), h2, log2) \<Rightarrow> (translateError out2 err2, h2, log2))))))"


section \<open>Evaluation on concrete inputs\<close>

lemmas eval_simps =
  prepareTemplateTags_def tagFunc_def tagsToGo_match_at_def tagOpens.simps tagCloses.simps
  stripOpen_def stripClose_def escapeGo_match_at_def escapeGoFunc_def replaceTemplateFallback_def
  upperFirst_def toUpper1_def asciiUpper_def recordVar_def lowerAscii_def clearBit5_def setBit5_def
  strings_TrimSpace_def
  isAsciiSpace_def lookupVars_def stripFallbackWord_def strings_SplitN2_def
  findFallback_match_at_def isRegexSpace_def Let_def

lemma prepare_asd_zxc:
  "prepareTemplateTags ''Hello {% asd.zxc %}'' = Inr (''Hello {{.Asd.Zxc}}'', [''Asd'' \<mapsto> [''Zxc'']])"
  by (simp add: eval_simps)

section \<open>Strict validation\<close>

subsection \<open>The error pattern on the engine's message\<close>

text \<open>
  \<open>pte_absent pre s\<close>: no match of \<open>parseTemplateError\<close> begins inside \<open>pre\<close> when \<open>s\<close>
  follows it, so that a match at the head of \<open>s\<close> is the first one.
\<close>

fun pte_absent :: "string \<Rightarrow> string \<Rightarrow> bool" where
  "pte_absent [] s = True"
| "pte_absent (c # cs) s = (pte_match_at (c # cs @ s) = None \<and> pte_absent cs s)"

text \<open>The literal head of the pattern.\<close>

definition pte_marker :: string where
  "pte_marker = ''executing '' @ [DQUOTE] @ ''email'' @ [DQUOTE] @ '' at <.''"

lemma stripPrefix_append: "stripPrefix p (p @ s) = Some s"
  by (induction p) auto

lemma pte_group2_name:
  "DQUOTE \<notin> set name \<Longrightarrow> NEWLINE \<notin> set name \<Longrightarrow> pte_group2 (name @ DQUOTE # rest) = Some name"
  by (induction name) auto

lemma pte_gap_name:
  "DQUOTE \<notin> set mid \<Longrightarrow> NEWLINE \<notin> set mid \<Longrightarrow> DQUOTE \<notin> set name \<Longrightarrow> NEWLINE \<notin> set name
   \<Longrightarrow> pte_gap (mid @ DQUOTE # name @ DQUOTE # rest) = Some name"
  by (induction mid) (auto simp: pte_group2_name)

lemma pte_group1_path:
  "CHR ''>'' \<notin> set path \<Longrightarrow> NEWLINE \<notin> set path \<Longrightarrow> pte_gap s = Some name
   \<Longrightarrow> pte_group1 (path @ CHR ''>'' # s) = Some (path, name)"
  by (induction path) auto

lemma parseTemplateError_first_skip:
  "pte_absent pre s \<Longrightarrow> parseTemplateError_first (pre @ s) = parseTemplateError_first s"
  by (induction pre) auto

lemma parseTemplateError_first_here:
  "pte_match_at s = Some g \<Longrightarrow> parseTemplateError_first s = Some g"
  by (cases s) (auto simp: pte_match_at_def)

lemma parseTemplateError_first_shape:
  assumes "pte_absent pre (pte_marker @ path @ CHR ''>'' # mid @ DQUOTE # name @ DQUOTE # rest)"
    and "CHR ''>'' \<notin> set path" "NEWLINE \<notin> set path"
    and "DQUOTE \<notin> set mid" "NEWLINE \<notin> set mid"
    and "DQUOTE \<notin> set name" "NEWLINE \<notin> set name"
  shows "parseTemplateError_first
           (pre @ pte_marker @ path @ CHR ''>'' # mid @ DQUOTE # name @ DQUOTE # rest)
         = Some (path, name)"
proof -
  have "pte_group1 (path @ CHR ''>'' # mid @ DQUOTE # name @ DQUOTE # rest) = Some (path, name)"
    using assms by (intro pte_group1_path pte_gap_name)
  then have "pte_match_at (pte_marker @ path @ CHR ''>'' # mid @ DQUOTE # name @ DQUOTE # rest)
               = Some (path, name)"
    unfolding pte_match_at_def pte_marker_def [symmetric] by (simp add: stripPrefix_append)
  then show ?thesis
    using assms(1) by (simp add: parseTemplateError_first_skip parseTemplateError_first_here)
qed

subsection \<open>What \<open>TestSafe\<close> returns\<close>

lemma replaceVariables_error_body:
  "replaceVariables E ctx t body keys parentKeys usedVars h l = ((out, Some e), h', l') \<Longrightarrow> out = body"
  by (auto simp: replaceVariables_def Let_def split: prod.splits sum.splits)

lemma TestSafe_html_parse_error:
  "prepareTemplateTags body0 = Inr (body, usedVars) \<Longrightarrow> Parse E HtmlTemplate True body = Inl e
   \<Longrightarrow> TestSafe E ctx body0 keys parentKeys h log = Inr (([], Some e), h, log)"
  by (simp add: TestSafe_def)

lemma TestSafe_text_parse_error:
  "prepareTemplateTags body0 = Inr (body, usedVars) \<Longrightarrow> Parse E HtmlTemplate True body = Inr t1
   \<Longrightarrow> replaceVariables E ctx t1 body keys parentKeys usedVars h log = ((o1, Some e1), h1, l1)
   \<Longrightarrow> Parse E TextTemplate True body = Inl e
   \<Longrightarrow> TestSafe E ctx body0 keys parentKeys h log = Inr (([], Some e), h1, l1)"
  by (simp add: TestSafe_def)

lemma TestSafe_second_attempt:
  "prepareTemplateTags body0 = Inr (body, usedVars) \<Longrightarrow> Parse E HtmlTemplate True body = Inr t1
   \<Longrightarrow> replaceVariables E ctx t1 body keys parentKeys usedVars h log = ((o1, Some e1), h1, l1)
   \<Longrightarrow> Parse E TextTemplate True body = Inr t2
   \<Longrightarrow> replaceVariables E ctx t2 body keys parentKeys usedVars h1 l1 = ((o2, err2), h2, l2)
   \<Longrightarrow> TestSafe E ctx body0 keys parentKeys h log = Inr (translateError o2 err2, h2, l2)"
  by (simp add: TestSafe_def)


subsection \<open>Engines for the examples\<close>

text \<open>
  An engine that fails to parse the flavours \<open>parseError\<close> names and fails every execution
  with \<open>execError\<close>; its template is the text itself.
\<close>

definition stubEngine :: "(flavour \<Rightarrow> goerror option) \<Rightarrow> goerror \<Rightarrow> string engine" where
  "stubEngine parseError execError =
     \<lparr>Parse = (\<lambda>f strict body. case parseError f of Some e \<Rightarrow> Inl e | None \<Rightarrow> Inr body),
      Execute = (\<lambda>t tree. Inl execError)\<rparr>"

text \<open>
  The message of \<open>text/template\<close> when, under \<open>missingkey=error\<close>, the map at the root has
  no entry \<open>Asd\<close> while \<open>.Asd.Zxc\<close> is evaluated.
\<close>

definition goMissingKey :: string where
  "goMissingKey = ''template: email:1:8: executing '' @ [DQUOTE] @ ''email'' @ [DQUOTE]
       @ '' at <.Asd.Zxc>: map has no entry for key '' @ [DQUOTE] @ ''Asd'' @ [DQUOTE]"

lemma goMissingKey_groups: "parseTemplateError_first goMissingKey = Some (''Asd.Zxc'', ''Asd'')"
  by (simp add: goMissingKey_def pte_match_at_def)

subsection \<open>The text returned beside an error\<close>

text \<open>
  Claim C10.  When \<open>TestSafe\<close> returns an error, the text beside it is empty if the error
  is a parse error (of the first or of the second attempt) or the translated
  unknown-variable error; an execution error that is not translated (not an \<open>ExecError\<close>,
  or an \<open>ExecError\<close> whose text the pattern does not match) comes back unchanged with the
  transpiled body.
\<close>

theorem TestSafe_text_beside_error:
  assumes prep: "prepareTemplateTags body0 = Inr (body, usedVars)"
  shows
    "(\<forall>e. Parse E HtmlTemplate True body = Inl e \<longrightarrow>
          map_sum id fst (TestSafe E ctx body0 keys parentKeys h log) = Inr ([], Some e))
   \<and> (\<forall>t1 o1 e1 h1 l1 e.
          Parse E HtmlTemplate True body = Inr t1
        \<and> replaceVariables E ctx t1 body keys parentKeys usedVars h log = ((o1, Some e1), h1, l1)
        \<and> Parse E TextTemplate True body = Inl e \<longrightarrow>
          map_sum id fst (TestSafe E ctx body0 keys parentKeys h log) = Inr ([], Some e))
   \<and> (\<forall>t1 o1 e1 h1 l1 t2 o2 m h2 l2 g1 g2.
          Parse E HtmlTemplate True body = Inr t1
        \<and> replaceVariables E ctx t1 body keys parentKeys usedVars h log = ((o1, Some e1), h1, l1)
        \<and> Parse E TextTemplate True body = Inr t2
        \<and> replaceVariables E ctx t2 body keys parentKeys usedVars h1 l1 = ((o2, Some (ExecError m)), h2, l2)
        \<and> parseTemplateError_first m = Some (g1, g2) \<longrightarrow>
          map_sum id fst (TestSafe E ctx body0 keys parentKeys h log)
            = Inr ([], Some (OtherError (''unknown variable '' @ g2 @ '' at '' @ g1))))
   \<and> (\<forall>t1 o1 e1 h1 l1 t2 o2 e2 h2 l2.
          Parse E HtmlTemplate True body = Inr t1
        \<and> replaceVariables E ctx t1 body keys parentKeys usedVars h log = ((o1, Some e1), h1, l1)
        \<and> Parse E TextTemplate True body = Inr t2
        \<and> replaceVariables E ctx t2 body keys parentKeys usedVars h1 l1 = ((o2, Some e2), h2, l2)
        \<and> (\<forall>m. e2 = ExecError m \<longrightarrow> parseTemplateError_first m = None) \<longrightarrow>
          map_sum id fst (TestSafe E ctx body0 keys parentKeys h log) = Inr (body, Some e2))"
proof (intro conjI allI impI, goal_cases)
  case (1 e)
  with prep show ?case by (simp add: TestSafe_html_parse_error)
next
  case (2 t1 o1 e1 h1 l1 e)
  with prep show ?case by (simp add: TestSafe_text_parse_error)
next
  case (3 t1 o1 e1 h1 l1 t2 o2 m h2 l2 g1 g2)
  then have "TestSafe E ctx body0 keys parentKeys h log
               = Inr (translateError o2 (Some (ExecError m)), h2, l2)"
    using prep by (intro TestSafe_second_attempt) auto
  with 3 show ?case by (simp add: translateError_def)
next
  case (4 t1 o1 e1 h1 l1 t2 o2 e2 h2 l2)
  then have T: "TestSafe E ctx body0 keys parentKeys h log
               = Inr (translateError o2 (Some e2), h2, l2)"
    using prep by (intro TestSafe_second_attempt) auto
  from 4 have "o2 = body" by (auto dest: replaceVariables_error_body)
  with 4 T show ?case by (cases e2) (simp_all add: translateError_def)
qed

theorem TestSafe_text_beside_error_witness:
  "map_sum id fst (TestSafe (stubEngine (\<lambda>f. Some (OtherError ''unexpected EOF'')) (ExecError []))
        () ''Hello {% asd.zxc %}'' [] () (\<lambda>r. Map.empty) [])
     = Inr ([], Some (OtherError ''unexpected EOF''))
   \<and> map_sum id fst (TestSafe (stubEngine (\<lambda>f. if f = TextTemplate then Some (OtherError ''unexpected EOF'') else None) (ExecError []))
        () ''Hello {% asd.zxc %}'' [] () (\<lambda>r. Map.empty) [])
     = Inr ([], Some (OtherError ''unexpected EOF''))
   \<and> map_sum id fst (TestSafe (stubEngine (\<lambda>f. None) (ExecError goMissingKey))
        () ''Hello {% asd.zxc %}'' [] () (\<lambda>r. Map.empty) [])
     = Inr ([], Some (OtherError ''unknown variable Asd at Asd.Zxc''))
   \<and> map_sum id fst (TestSafe (stubEngine (\<lambda>f. None) (ExecError ''out of memory''))
        () ''Hello {% asd.zxc %}'' [] () (\<lambda>r. Map.empty) [])
     = Inr (''Hello {{.Asd.Zxc}}'', Some (ExecError ''out of memory''))"
proof (intro conjI)
  show "map_sum id fst (TestSafe (stubEngine (\<lambda>f. Some (OtherError ''unexpected EOF'')) (ExecError []))
        () ''Hello {% asd.zxc %}'' [] () (\<lambda>r. Map.empty) [])
     = Inr ([], Some (OtherError ''unexpected EOF''))"
    using TestSafe_text_beside_error [OF prepare_asd_zxc,
        of "stubEngine (\<lambda>f. Some (OtherError ''unexpected EOF'')) (ExecError [])" "()" "[]" "()" "\<lambda>r. Map.empty" "[]"]
    by (simp add: stubEngine_def)
  show "map_sum id fst (TestSafe (stubEngine (\<lambda>f. if f = TextTemplate then Some (OtherError ''unexpected EOF'') else None) (ExecError []))
        () ''Hello {% asd.zxc %}'' [] () (\<lambda>r. Map.empty) [])
     = Inr ([], Some (OtherError ''unexpected EOF''))"
    using TestSafe_text_beside_error [OF prepare_asd_zxc,
        of "stubEngine (\<lambda>f. if f = TextTemplate then Some (OtherError ''unexpected EOF'') else None) (ExecError [])" "()" "[]" "()" "\<lambda>r. Map.empty" "[]"]
    by (simp add: stubEngine_def replaceVariables_def)
  show "map_sum id fst (TestSafe (stubEngine (\<lambda>f. None) (ExecError goMissingKey))
        () ''Hello {% asd.zxc %}'' [] () (\<lambda>r. Map.empty) [])
     = Inr ([], Some (OtherError ''unknown variable Asd at Asd.Zxc''))"
    using TestSafe_text_beside_error [OF prepare_asd_zxc,
        of "stubEngine (\<lambda>f. None) (ExecError goMissingKey)" "()" "[]" "()" "\<lambda>r. Map.empty" "[]"]
    by (simp add: stubEngine_def replaceVariables_def goMissingKey_groups)
  show "map_sum id fst (TestSafe (stubEngine (\<lambda>f. None) (ExecError ''out of memory''))
        () ''Hello {% asd.zxc %}'' [] () (\<lambda>r. Map.empty) [])
     = Inr (''Hello {{.Asd.Zxc}}'', Some (ExecError ''out of memory''))"
    using TestSafe_text_beside_error [OF prepare_asd_zxc,
        of "stubEngine (\<lambda>f. None) (ExecError ''out of memory'')" "()" "[]" "()" "\<lambda>r. Map.empty" "[]"]
    by (simp add: stubEngine_def replaceVariables_def pte_match_at_def)
qed

subsection \<open>The unknown-variable error\<close>

text \<open>
  Claim C8.  In strict mode, when both attempts fail and the second fails with an
  \<open>ExecError\<close> whose text holds \<^verbatim>\<open>executing "email" at <.\<close>\<open>path\<close>\<^verbatim>\<open>>\<close>, followed later on
  the line by a quoted \<open>name\<close>, the error returned reads
  \<open>unknown variable name at path\<close>: the path is \<open>Namespace.Key\<close> and the name is the map key
  the engine found missing.  An error that is not an \<open>ExecError\<close>, or whose text the
  pattern does not match, is returned unchanged.
\<close>

theorem TestSafe_unknown_variable:
  assumes prep: "prepareTemplateTags body0 = Inr (body, usedVars)"
    and p1: "Parse E HtmlTemplate True body = Inr t1"
    and r1: "replaceVariables E ctx t1 body keys parentKeys usedVars h log = ((o1, Some e1), h1, l1)"
    and p2: "Parse E TextTemplate True body = Inr t2"
    and r2: "replaceVariables E ctx t2 body keys parentKeys usedVars h1 l1 = ((o2, Some e2), h2, l2)"
  shows
    "(\<forall>pre path mid name rest.
          e2 = ExecError (pre @ pte_marker @ path @ CHR ''>'' # mid @ DQUOTE # name @ DQUOTE # rest)
        \<and> pte_absent pre (pte_marker @ path @ CHR ''>'' # mid @ DQUOTE # name @ DQUOTE # rest)
        \<and> CHR ''>'' \<notin> set path \<and> NEWLINE \<notin> set path
        \<and> DQUOTE \<notin> set mid \<and> NEWLINE \<notin> set mid
        \<and> DQUOTE \<notin> set name \<and> NEWLINE \<notin> set name \<longrightarrow>
          map_sum id (snd \<circ> fst) (TestSafe E ctx body0 keys parentKeys h log)
            = Inr (Some (OtherError (''unknown variable '' @ name @ '' at '' @ path))))
   \<and> ((\<forall>m. e2 = ExecError m \<longrightarrow> parseTemplateError_first m = None) \<longrightarrow>
          map_sum id (snd \<circ> fst) (TestSafe E ctx body0 keys parentKeys h log) = Inr (Some e2))"
proof -
  have T: "TestSafe E ctx body0 keys parentKeys h log = Inr (translateError o2 (Some e2), h2, l2)"
    using prep p1 r1 p2 r2 by (rule TestSafe_second_attempt)
  show ?thesis
  proof (intro conjI allI impI, goal_cases)
    case (1 pre path mid name rest)
    then have "parseTemplateError_first
                 (pre @ pte_marker @ path @ CHR ''>'' # mid @ DQUOTE # name @ DQUOTE # rest)
               = Some (path, name)"
      by (intro parseTemplateError_first_shape) auto
    with 1 T show ?case by (simp add: translateError_def)
  next
    case 2
    with T show ?case by (cases e2) (simp_all add: translateError_def)
  qed
qed

theorem TestSafe_unknown_variable_witness:
  "map_sum id (snd \<circ> fst)
     (TestSafe (stubEngine (\<lambda>f. None) (ExecError goMissingKey))
        () ''Hello {% asd.zxc %}'' [] () (\<lambda>r. Map.empty) [])
     = Inr (Some (OtherError ''unknown variable Asd at Asd.Zxc''))
   \<and> map_sum id (snd \<circ> fst)
     (TestSafe (stubEngine (\<lambda>f. None) (OtherError ''write: broken pipe''))
        () ''Hello {% asd.zxc %}'' [] () (\<lambda>r. Map.empty) [])
     = Inr (Some (OtherError ''write: broken pipe''))"
proof (intro conjI)
  let ?E = "stubEngine (\<lambda>f. None) (ExecError goMissingKey)"
  have r: "replaceVariables ?E () ''Hello {{.Asd.Zxc}}'' ''Hello {{.Asd.Zxc}}'' [] ()
             [''Asd'' \<mapsto> [''Zxc'']] (\<lambda>r. Map.empty) []
           = ((''Hello {{.Asd.Zxc}}'', Some (ExecError goMissingKey)), (\<lambda>r. Map.empty), [])"
    by (simp add: replaceVariables_def stubEngine_def)
  have p: "Parse ?E f True ''Hello {{.Asd.Zxc}}'' = Inr ''Hello {{.Asd.Zxc}}''" for f
    by (simp add: stubEngine_def)
  from TestSafe_unknown_variable [OF prepare_asd_zxc p r p r, THEN conjunct1, rule_format,
      of "''template: email:1:8: ''" "''Asd.Zxc''" "'': map has no entry for key ''" "''Asd''" "[]"]
  show "map_sum id (snd \<circ> fst) (TestSafe ?E () ''Hello {% asd.zxc %}'' [] () (\<lambda>r. Map.empty) [])
          = Inr (Some (OtherError ''unknown variable Asd at Asd.Zxc''))"
    by (simp add: goMissingKey_def pte_marker_def pte_match_at_def)
next
  let ?E = "stubEngine (\<lambda>f. None) (OtherError ''write: broken pipe'')"
  have r: "replaceVariables ?E () ''Hello {{.Asd.Zxc}}'' ''Hello {{.Asd.Zxc}}'' [] ()
             [''Asd'' \<mapsto> [''Zxc'']] (\<lambda>r. Map.empty) []
           = ((''Hello {{.Asd.Zxc}}'', Some (OtherError ''write: broken pipe'')), (\<lambda>r. Map.empty), [])"
    by (simp add: replaceVariables_def stubEngine_def)
  have p: "Parse ?E f True ''Hello {{.Asd.Zxc}}'' = Inr ''Hello {{.Asd.Zxc}}''" for f
    by (simp add: stubEngine_def)
  from TestSafe_unknown_variable [OF prepare_asd_zxc p r p r, THEN conjunct2]
  show "map_sum id (snd \<circ> fst) (TestSafe ?E () ''Hello {% asd.zxc %}'' [] () (\<lambda>r. Map.empty) [])
          = Inr (Some (OtherError ''write: broken pipe''))"
    by simp
qed


section \<open>The resolver: calls and entries\<close>

text \<open>
  The claim speaks of the mapping that bulk-resolve returned and of the lazy values found.
  \<open>bulkValues\<close> reads the returned map in a store (nil is the empty mapping),
  \<open>lazyValues\<close> holds the value of each used key whose \<open>TemplateCallbacks\<close> signals found,
  and \<open>resolvedEntry\<close> is the first with the second set into it.
\<close>

definition lazyValues :: "('c, 'p) Templateable \<Rightarrow> 'c \<Rightarrow> 'p \<Rightarrow> string list \<Rightarrow> Keys" where
  "lazyValues val ctx parentKeys used =
     (\<lambda>k. if k \<in> set used \<and> snd (TemplateCallbacks val ctx k parentKeys)
          then Some (VString (fst (TemplateCallbacks val ctx k parentKeys))) else None)"

definition bulkValues :: "('c, 'p) Templateable \<Rightarrow> 'c \<Rightarrow> 'p \<Rightarrow> store \<Rightarrow> Keys" where
  "bulkValues val ctx parentKeys h =
     (case TemplateKeys val ctx parentKeys of None \<Rightarrow> Map.empty | Some r \<Rightarrow> h r)"

definition resolvedEntry ::
  "('c, 'p) Templateable \<Rightarrow> 'c \<Rightarrow> 'p \<Rightarrow> usedVars \<Rightarrow> string \<Rightarrow> store \<Rightarrow> Keys" where
  "resolvedEntry val ctx parentKeys usedVars key h =
     bulkValues val ctx parentKeys h ++ lazyValues val ctx parentKeys (lookupVars usedVars key)"

text \<open>The calls one capability receives, and the maps the capabilities return.\<close>

definition callsFor :: "usedVars \<Rightarrow> string \<times> ('c, 'p) Templateable \<Rightarrow> call list" where
  "callsFor usedVars kv =
     CallTemplateKeys (fst kv) # map (CallTemplateCallbacks (fst kv)) (lookupVars usedVars (fst kv))"

fun returnedMaps :: "'c \<Rightarrow> 'p \<Rightarrow> (string \<times> ('c, 'p) Templateable) list \<Rightarrow> ref list" where
  "returnedMaps ctx parentKeys [] = []"
| "returnedMaps ctx parentKeys ((key, val) # keys) =
     (case TemplateKeys val ctx parentKeys of
        None \<Rightarrow> returnedMaps ctx parentKeys keys
      | Some r \<Rightarrow> r # returnedMaps ctx parentKeys keys)"

lemma lazyValues_Nil: "lazyValues val ctx pk [] = Map.empty"
  by (simp add: lazyValues_def)

lemma lazyValues_Cons_set:
  "snd (TemplateCallbacks val ctx v pk) \<Longrightarrow>
   m(v \<mapsto> VString (fst (TemplateCallbacks val ctx v pk))) ++ lazyValues val ctx pk used
     = m ++ lazyValues val ctx pk (v # used)"
  by (rule ext) (auto simp: lazyValues_def map_add_def)

lemma lazyValues_Cons_skip:
  "\<not> snd (TemplateCallbacks val ctx v pk) \<Longrightarrow>
   lazyValues val ctx pk (v # used) = lazyValues val ctx pk used"
  by (rule ext) (auto simp: lazyValues_def)

lemma usedLoop_result:
  "usedLoop val ctx pk key used (e, h, log) =
     (case e of
        Fresh m \<Rightarrow> (Fresh (m ++ lazyValues val ctx pk used), h,
                    log @ map (CallTemplateCallbacks key) used)
      | Shared r \<Rightarrow> (Shared r, h(r := h r ++ lazyValues val ctx pk used),
                    log @ map (CallTemplateCallbacks key) used))"
proof (induction used arbitrary: e h log)
  case Nil
  show ?case by (cases e) (simp_all add: lazyValues_Nil)
next
  case (Cons v used)
  obtain result setIt where cb: "TemplateCallbacks val ctx v pk = (result, setIt)"
    by (cases "TemplateCallbacks val ctx v pk")
  show ?case
  proof (cases setIt)
    case True
    with cb have s: "snd (TemplateCallbacks val ctx v pk)" and f: "fst (TemplateCallbacks val ctx v pk) = result" by simp_all
    show ?thesis
      using cb True Cons.IH lazyValues_Cons_set [OF s, of _ used]
      by (cases e) (simp_all add: setKey_def f)
  next
    case False
    with cb have s: "\<not> snd (TemplateCallbacks val ctx v pk)" by simp
    show ?thesis
      using cb False Cons.IH by (cases e) (simp_all add: lazyValues_Cons_skip [OF s])
  qed
qed

text \<open>One step of the outer loop.\<close>

definition keysStep ::
  "'c \<Rightarrow> 'p \<Rightarrow> usedVars \<Rightarrow> string \<times> ('c, 'p) Templateable
     \<Rightarrow> (string \<rightharpoonup> entry) \<times> store \<times> call list \<Rightarrow> (string \<rightharpoonup> entry) \<times> store \<times> call list" where
  "keysStep ctx pk usedVars kv st =
     (case st of (params, h, log) \<Rightarrow>
        (case TemplateKeys (snd kv) ctx pk of
           None \<Rightarrow> (params(fst kv \<mapsto> Fresh (lazyValues (snd kv) ctx pk (lookupVars usedVars (fst kv)))),
                     h, log @ callsFor usedVars kv)
         | Some r \<Rightarrow> (params(fst kv \<mapsto> Shared r),
                       h(r := h r ++ lazyValues (snd kv) ctx pk (lookupVars usedVars (fst kv))),
                       log @ callsFor usedVars kv)))"

lemma keysLoop_Cons:
  "keysLoop ctx pk (kv # keys) usedVars st = keysLoop ctx pk keys usedVars (keysStep ctx pk usedVars kv st)"
  by (cases kv; cases st)
     (auto simp: keysStep_def usedLoop_result callsFor_def lookupVars_def lazyValues_Nil Let_def
           split: option.splits)


declare keysLoop.simps(2) [simp del]

lemma keysLoop_log:
  "snd (snd (keysLoop ctx pk keys usedVars (params, h, log)))
     = log @ concat (map (callsFor usedVars) keys)"
proof (induction keys arbitrary: params h log)
  case Nil
  show ?case by simp
next
  case (Cons kv keys)
  show ?case
    by (cases "TemplateKeys (snd kv) ctx pk") (simp_all add: keysLoop_Cons keysStep_def Cons.IH)
qed

lemma keysLoop_params_other:
  "key \<notin> fst ` set keys \<Longrightarrow> fst (keysLoop ctx pk keys usedVars (params, h, log)) key = params key"
proof (induction keys arbitrary: params h log)
  case Nil
  show ?case by simp
next
  case (Cons kv keys)
  then show ?case
    by (cases "TemplateKeys (snd kv) ctx pk") (simp_all add: keysLoop_Cons keysStep_def)
qed

lemma keysLoop_store_other:
  "r \<notin> set (returnedMaps ctx pk keys) \<Longrightarrow>
   fst (snd (keysLoop ctx pk keys usedVars (params, h, log))) r = h r"
proof (induction keys arbitrary: params h log)
  case Nil
  show ?case by simp
next
  case (Cons kv keys)
  then show ?case
    by (cases kv; cases "TemplateKeys (snd kv) ctx pk") (auto simp: keysLoop_Cons keysStep_def)
qed

lemma returnedMaps_mem:
  "(key, val) \<in> set keys \<Longrightarrow> TemplateKeys val ctx pk = Some r \<Longrightarrow> r \<in> set (returnedMaps ctx pk keys)"
  by (induction keys) (auto split: option.splits)

lemma keysLoop_entry:
  assumes "distinct (map fst keys)" and "distinct (returnedMaps ctx pk keys)"
    and "(key, val) \<in> set keys"
  shows "paramTree (fst (keysLoop ctx pk keys usedVars (params, h, log)))
                   (fst (snd (keysLoop ctx pk keys usedVars (params, h, log)))) key
         = Some (resolvedEntry val ctx pk usedVars key h)"
  using assms
proof (induction keys arbitrary: params h log)
  case Nil
  then show ?case by simp
next
  case (Cons kv keys)
  obtain k0 v0 where kv: "kv = (k0, v0)" by (cases kv)
  let ?L = "lazyValues v0 ctx pk (lookupVars usedVars k0)"
  show ?case
  proof (cases "(key, val) = kv")
    case True
    with kv have [simp]: "k0 = key" "v0 = val" by simp_all
    from Cons.prems(1) kv have notin: "key \<notin> fst ` set keys" by simp
    show ?thesis
    proof (cases "TemplateKeys val ctx pk")
      case None
      then show ?thesis
        using keysLoop_params_other [OF notin, of ctx pk usedVars]
        by (simp add: kv keysLoop_Cons keysStep_def paramTree_def resolvedEntry_def bulkValues_def)
    next
      case (Some r)
      with Cons.prems(2) kv have "r \<notin> set (returnedMaps ctx pk keys)" by simp
      from keysLoop_store_other [OF this, of usedVars] Some show ?thesis
        using keysLoop_params_other [OF notin, of ctx pk usedVars]
        by (simp add: kv keysLoop_Cons keysStep_def paramTree_def resolvedEntry_def bulkValues_def)
    qed
  next
    case False
    with Cons.prems(3) have mem: "(key, val) \<in> set keys" by simp
    from Cons.prems have d1: "distinct (map fst keys)" by simp
    from Cons.prems(2) kv have d2: "distinct (returnedMaps ctx pk keys)"
      by (simp split: option.splits)
    show ?thesis
    proof (cases "TemplateKeys v0 ctx pk")
      case None
      then show ?thesis
        using Cons.IH [OF d1 d2 mem] by (simp add: kv keysLoop_Cons keysStep_def)
    next
      case (Some r)
      have same: "resolvedEntry val ctx pk usedVars key (h(r := h r ++ ?L))
                    = resolvedEntry val ctx pk usedVars key h"
      proof (cases "TemplateKeys val ctx pk")
        case None
        then show ?thesis by (simp add: resolvedEntry_def bulkValues_def)
      next
        case (Some r')
        from returnedMaps_mem [OF mem Some] Cons.prems(2) kv \<open>TemplateKeys v0 ctx pk = Some r\<close>
        have "r' \<noteq> r" by auto
        with Some show ?thesis by (simp add: resolvedEntry_def bulkValues_def)
      qed
      from Some have step:
        "keysLoop ctx pk (kv # keys) usedVars (params, h, log)
           = keysLoop ctx pk keys usedVars
               (params(k0 \<mapsto> Shared r), h(r := h r ++ ?L), log @ callsFor usedVars kv)"
        by (simp add: kv keysLoop_Cons keysStep_def)
      show ?thesis
        by (simp only: step Cons.IH [OF d1 d2 mem] same)
    qed
  qed
qed

lemma keysLoop_absent:
  "key \<notin> fst ` set keys \<Longrightarrow>
   paramTree (fst (keysLoop ctx pk keys usedVars (Map.empty, h, log)))
             (fst (snd (keysLoop ctx pk keys usedVars (Map.empty, h, log)))) key = None"
  by (simp add: paramTree_def keysLoop_params_other)


lemma count_callsFor_keys:
  "count_list (concat (map (callsFor usedVars) keys)) (CallTemplateKeys key)
     = count_list (map fst keys) key"
  by (induction keys) (auto simp: callsFor_def count_list_0_iff)

lemma count_callsFor_callbacks:
  "count_list (concat (map (callsFor usedVars) keys)) (CallTemplateCallbacks key k)
     = count_list (map fst keys) key * count_list (lookupVars usedVars key) k"
proof (induction keys)
  case Nil
  show ?case by simp
next
  case (Cons kv keys)
  have "count_list (map (CallTemplateCallbacks a) xs) (CallTemplateCallbacks key k)
          = (if a = key then count_list xs k else 0)" for a xs
    by (induction xs) auto
  with Cons show ?case by (simp add: callsFor_def)
qed

lemma count_list_distinct_mem: "distinct xs \<Longrightarrow> x \<in> set xs \<Longrightarrow> count_list xs x = 1"
  by (induction xs) (auto simp: count_list_0_iff)

text \<open>
  The capability of the package's tests: \<open>TemplateKeys\<close> returns the map it holds, and
  \<open>TemplateCallbacks\<close> finds the key that is \<open>useit\<close> in lower case.
\<close>

definition TestKeys :: "ref option \<Rightarrow> (unit, unit) Templateable" where
  "TestKeys keys =
     \<lparr>TemplateKeys = (\<lambda>ctx p. keys),
      TemplateCallbacks = (\<lambda>ctx key p.
         if map lowerAscii key = ''useit'' then (''cb value'', True) else ([], False))\<rparr>"

text \<open>
  Claim C6, as amended.  One run of the resolver (\<open>replaceVariables\<close>) over capabilities
  with distinct namespaces calls \<open>TemplateKeys\<close> once for each capability and
  \<open>TemplateCallbacks\<close> once for each key recorded for its namespace, in this order.  When
  no two capabilities return the same map, the entry of the parameter tree for a namespace
  is the returned mapping (empty for nil) with every lazy value found set into it, and a
  namespace without a capability has no entry.
\<close>

theorem keysLoop_resolves:
  assumes dk: "distinct (map fst keys)"
  shows
    "snd (snd (replaceVariables E ctx tmpl body keys pk usedVars h []))
       = concat (map (callsFor usedVars) keys)
   \<and> (\<forall>(key, val) \<in> set keys.
         count_list (snd (snd (replaceVariables E ctx tmpl body keys pk usedVars h [])))
           (CallTemplateKeys key) = 1
       \<and> (\<forall>k \<in> set (lookupVars usedVars key).
            distinct (lookupVars usedVars key) \<longrightarrow>
            count_list (snd (snd (replaceVariables E ctx tmpl body keys pk usedVars h [])))
              (CallTemplateCallbacks key k) = 1))
   \<and> (distinct (returnedMaps ctx pk keys) \<longrightarrow>
        (\<forall>(key, val) \<in> set keys.
           paramTree (fst (keysLoop ctx pk keys usedVars (Map.empty, h, [])))
                     (fst (snd (keysLoop ctx pk keys usedVars (Map.empty, h, [])))) key
             = Some (resolvedEntry val ctx pk usedVars key h)))
   \<and> (\<forall>key. key \<notin> fst ` set keys \<longrightarrow>
           paramTree (fst (keysLoop ctx pk keys usedVars (Map.empty, h, [])))
                     (fst (snd (keysLoop ctx pk keys usedVars (Map.empty, h, [])))) key = None)"
proof -
  have log: "snd (snd (replaceVariables E ctx tmpl body keys pk usedVars h []))
               = concat (map (callsFor usedVars) keys)"
    using keysLoop_log [of ctx pk keys usedVars Map.empty h "[]"]
    by (auto simp: replaceVariables_def Let_def split: prod.splits sum.splits)
  have one: "count_list (map fst keys) key = 1" if "(key, val) \<in> set keys" for key val
    using that dk by (intro count_list_distinct_mem) force+
  show ?thesis
  proof (intro conjI)
    show "snd (snd (replaceVariables E ctx tmpl body keys pk usedVars h []))
            = concat (map (callsFor usedVars) keys)"
      by (rule log)
    show "\<forall>(key, val) \<in> set keys.
         count_list (snd (snd (replaceVariables E ctx tmpl body keys pk usedVars h [])))
           (CallTemplateKeys key) = 1
       \<and> (\<forall>k \<in> set (lookupVars usedVars key).
            distinct (lookupVars usedVars key) \<longrightarrow>
            count_list (snd (snd (replaceVariables E ctx tmpl body keys pk usedVars h [])))
              (CallTemplateCallbacks key k) = 1)"
      unfolding log
      by (auto simp: count_callsFor_keys count_callsFor_callbacks one count_list_distinct_mem)
    show "distinct (returnedMaps ctx pk keys) \<longrightarrow>
        (\<forall>(key, val) \<in> set keys.
           paramTree (fst (keysLoop ctx pk keys usedVars (Map.empty, h, [])))
                     (fst (snd (keysLoop ctx pk keys usedVars (Map.empty, h, [])))) key
             = Some (resolvedEntry val ctx pk usedVars key h))"
      using keysLoop_entry [OF dk] by blast
    show "\<forall>key. key \<notin> fst ` set keys \<longrightarrow>
           paramTree (fst (keysLoop ctx pk keys usedVars (Map.empty, h, [])))
                     (fst (snd (keysLoop ctx pk keys usedVars (Map.empty, h, [])))) key = None"
      by (simp add: keysLoop_absent)
  qed
qed


lemma TestKeys_simps:
  "TemplateKeys (TestKeys r) ctx p = r"
  "TemplateCallbacks (TestKeys r) ctx ''Useit'' p = (''cb value'', True)"
  "TemplateCallbacks (TestKeys r) ctx ''Test'' p = ([], False)"
  "TemplateCallbacks (TestKeys r) ctx ''Zxc'' p = ([], False)"
  by (simp_all add: TestKeys_def lowerAscii_def setBit5_def)

theorem keysLoop_resolves_witness:
  "snd (snd (replaceVariables (stubEngine (\<lambda>f. None) (ExecError [])) () [] []
               [(''Test'', TestKeys (Some 0))] () [''Test'' \<mapsto> [''Useit'', ''Test'']]
               (\<lambda>r. [''Test'' \<mapsto> VString ''world'']) []))
     = [CallTemplateKeys ''Test'', CallTemplateCallbacks ''Test'' ''Useit'',
        CallTemplateCallbacks ''Test'' ''Test'']
   \<and> paramTree
        (fst (keysLoop () () [(''Test'', TestKeys (Some 0))] [''Test'' \<mapsto> [''Useit'', ''Test'']]
                (Map.empty, (\<lambda>r. [''Test'' \<mapsto> VString ''world'']), [])))
        (fst (snd (keysLoop () () [(''Test'', TestKeys (Some 0))] [''Test'' \<mapsto> [''Useit'', ''Test'']]
                (Map.empty, (\<lambda>r. [''Test'' \<mapsto> VString ''world'']), [])))) ''Test''
     = Some [''Test'' \<mapsto> VString ''world'', ''Useit'' \<mapsto> VString ''cb value'']
   \<and> paramTree
        (fst (keysLoop () () [(''Test'', TestKeys (Some 0))] [''Test'' \<mapsto> [''Useit'', ''Test'']]
                (Map.empty, (\<lambda>r. [''Test'' \<mapsto> VString ''world'']), [])))
        (fst (snd (keysLoop () () [(''Test'', TestKeys (Some 0))] [''Test'' \<mapsto> [''Useit'', ''Test'']]
                (Map.empty, (\<lambda>r. [''Test'' \<mapsto> VString ''world'']), [])))) ''Inbox''
     = None"
proof -
  have e: "resolvedEntry (TestKeys (Some 0)) () () [''Test'' \<mapsto> [''Useit'', ''Test'']] ''Test''
             (\<lambda>r. [''Test'' \<mapsto> VString ''world''])
           = [''Test'' \<mapsto> VString ''world'', ''Useit'' \<mapsto> VString ''cb value'']"
    by (rule ext)
       (simp add: resolvedEntry_def bulkValues_def lazyValues_def lookupVars_def TestKeys_simps
                  map_add_def)
  from keysLoop_resolves [of "[(''Test'', TestKeys (Some 0))]"
      "stubEngine (\<lambda>f. None) (ExecError [])" "()" "[]" "[]" "()"
      "[''Test'' \<mapsto> [''Useit'', ''Test'']]" "\<lambda>r. [''Test'' \<mapsto> VString ''world'']"]
  show ?thesis
    by (simp add: callsFor_def lookupVars_def TestKeys_simps e)
qed

text \<open>
  The claim as stated fails in two ways.  Two capabilities that return the same map share
  the lazy values written into it: with \<open>B\<close> visited before \<open>A\<close>, the entry of \<open>B\<close> holds
  the value found for \<open>A\<close>.  And one render call may run the resolver twice: \<open>TestSafe\<close>
  resolves again after a failed first execution, so \<open>TemplateKeys\<close> is called twice.
\<close>

theorem resolver_claim_counterexample:
  "paramTree
      (fst (keysLoop () () [(''B'', TestKeys (Some 0)), (''A'', TestKeys (Some 0))]
              [''A'' \<mapsto> [''Useit'']] (Map.empty, (\<lambda>r. Map.empty), [])))
      (fst (snd (keysLoop () () [(''B'', TestKeys (Some 0)), (''A'', TestKeys (Some 0))]
              [''A'' \<mapsto> [''Useit'']] (Map.empty, (\<lambda>r. Map.empty), [])))) ''B''
     \<noteq> Some (resolvedEntry (TestKeys (Some 0)) () () [''A'' \<mapsto> [''Useit'']] ''B'' (\<lambda>r. Map.empty))
   \<and> (case TestSafe (stubEngine (\<lambda>f. None) (ExecError ''unexpected''))
              () ''Hello {% asd.zxc %}'' [(''Asd'', TestKeys None)] () (\<lambda>r. Map.empty) [] of
         Inl p \<Rightarrow> False
       | Inr (res, h', calls) \<Rightarrow> count_list calls (CallTemplateKeys ''Asd'') = 2)"
proof (intro conjI)
  have "resolvedEntry (TestKeys (Some 0)) () () [''A'' \<mapsto> [''Useit'']] ''B'' (\<lambda>r. Map.empty) ''Useit''
          = None"
    by (simp add: resolvedEntry_def bulkValues_def lazyValues_def lookupVars_def TestKeys_simps)
  moreover have "paramTree
      (fst (keysLoop () () [(''B'', TestKeys (Some 0)), (''A'', TestKeys (Some 0))]
              [''A'' \<mapsto> [''Useit'']] (Map.empty, (\<lambda>r. Map.empty), [])))
      (fst (snd (keysLoop () () [(''B'', TestKeys (Some 0)), (''A'', TestKeys (Some 0))]
              [''A'' \<mapsto> [''Useit'']] (Map.empty, (\<lambda>r. Map.empty), [])))) ''B''
     = Some [''Useit'' \<mapsto> VString ''cb value'']"
    by (simp add: keysLoop.simps paramTree_def TestKeys_simps setKey_def)
  ultimately show "paramTree
      (fst (keysLoop () () [(''B'', TestKeys (Some 0)), (''A'', TestKeys (Some 0))]
              [''A'' \<mapsto> [''Useit'']] (Map.empty, (\<lambda>r. Map.empty), [])))
      (fst (snd (keysLoop () () [(''B'', TestKeys (Some 0)), (''A'', TestKeys (Some 0))]
              [''A'' \<mapsto> [''Useit'']] (Map.empty, (\<lambda>r. Map.empty), [])))) ''B''
     \<noteq> Some (resolvedEntry (TestKeys (Some 0)) () () [''A'' \<mapsto> [''Useit'']] ''B'' (\<lambda>r. Map.empty))"
    by (metis option.inject option.distinct(1) fun_upd_same)
  show "case TestSafe (stubEngine (\<lambda>f. None) (ExecError ''unexpected''))
              () ''Hello {% asd.zxc %}'' [(''Asd'', TestKeys None)] () (\<lambda>r. Map.empty) [] of
         Inl p \<Rightarrow> False
       | Inr (res, h', calls) \<Rightarrow> count_list calls (CallTemplateKeys ''Asd'') = 2"
    by (simp add: TestSafe_def prepare_asd_zxc stubEngine_def replaceVariables_def keysLoop.simps
                  TestKeys_simps translateError_def pte_match_at_def)
qed


section \<open>The tag pattern: a match does not depend on what follows it\<close>

text \<open>The literal openers and closers, up to the case of the two letters.\<close>

definition isOpener :: "string \<Rightarrow> bool" where
  "isOpener k \<longleftrightarrow> k = ''{%'' \<or> k = ''%7B%25'' \<or> k = ''%7b%25''"

definition isCloser :: "string \<Rightarrow> bool" where
  "isCloser k \<longleftrightarrow> k = ''%}'' \<or> k = ''%25%7D'' \<or> k = ''%25%7d''"

lemma lowerAscii_eq_iff:
  "lowerAscii c = CHR ''%'' \<longleftrightarrow> c = CHR ''%''"
  "lowerAscii c = CHR ''7'' \<longleftrightarrow> c = CHR ''7''"
  "lowerAscii c = CHR ''2'' \<longleftrightarrow> c = CHR ''2''"
  "lowerAscii c = CHR ''5'' \<longleftrightarrow> c = CHR ''5''"
  "lowerAscii c = CHR ''b'' \<longleftrightarrow> c = CHR ''b'' \<or> c = CHR ''B''"
  "lowerAscii c = CHR ''d'' \<longleftrightarrow> c = CHR ''d'' \<or> c = CHR ''D''"
  by (cases c; auto simp: lowerAscii_def setBit5_def)+

lemma stripPrefix_iff: "stripPrefix p s = Some q \<longleftrightarrow> s = p @ q"
  by (induction p s rule: stripPrefix.induct) auto

lemma stripPrefixFold_Cons_iff:
  "stripPrefixFold (p # ps) s = Some q \<longleftrightarrow>
     (\<exists>c cs. s = c # cs \<and> lowerAscii c = lowerAscii p \<and> stripPrefixFold ps cs = Some q)"
  by (cases s) auto

lemma lowerAscii_lits:
  "lowerAscii CHR ''%'' = CHR ''%''" "lowerAscii CHR ''7'' = CHR ''7''"
  "lowerAscii CHR ''2'' = CHR ''2''" "lowerAscii CHR ''5'' = CHR ''5''"
  "lowerAscii CHR ''B'' = CHR ''b''" "lowerAscii CHR ''D'' = CHR ''d''"
  by (simp_all add: lowerAscii_def setBit5_def)

lemma fold_opener:
  "stripPrefixFold ''%7B%25'' s = Some q \<longleftrightarrow> s = ''%7B%25'' @ q \<or> s = ''%7b%25'' @ q"
  apply (simp only: stripPrefixFold_Cons_iff stripPrefixFold.simps(1) lowerAscii_lits lowerAscii_eq_iff)
  apply (rule iffI)
   apply (elim exE conjE disjE)
    apply simp
   apply simp
  apply (erule disjE)
   apply simp
  apply simp
  done

lemma fold_closer:
  "stripPrefixFold ''%25%7D'' s = Some q \<longleftrightarrow> s = ''%25%7D'' @ q \<or> s = ''%25%7d'' @ q"
  apply (simp only: stripPrefixFold_Cons_iff stripPrefixFold.simps(1) lowerAscii_lits lowerAscii_eq_iff)
  apply (rule iffI)
   apply (elim exE conjE disjE)
    apply simp
   apply simp
  apply (erule disjE)
   apply simp
  apply simp
  done

lemma stripOpen_opener: "isOpener k \<Longrightarrow> stripOpen (k @ q) = Some q"
  unfolding isOpener_def stripOpen_def
  by (elim disjE) (simp_all add: lowerAscii_def setBit5_def)

lemma stripOpen_Some: "stripOpen s = Some q \<Longrightarrow> \<exists>k. isOpener k \<and> s = k @ q"
proof (cases "stripPrefix ''{%'' s")
  case None
  assume "stripOpen s = Some q"
  with None have "stripPrefixFold ''%7B%25'' s = Some q" by (simp add: stripOpen_def)
  then have "s = ''%7B%25'' @ q \<or> s = ''%7b%25'' @ q" by (simp only: fold_opener)
  then show ?thesis unfolding isOpener_def by blast
next
  case (Some r)
  assume "stripOpen s = Some q"
  with Some have "r = q" by (simp add: stripOpen_def)
  with Some have "s = ''{%'' @ q" by (simp only: stripPrefix_iff)
  then show ?thesis unfolding isOpener_def by blast
qed

lemma stripClose_closer: "isCloser k \<Longrightarrow> stripClose (k @ q) = Some q"
  unfolding isCloser_def stripClose_def
  by (elim disjE) (simp_all add: lowerAscii_def setBit5_def)

lemma stripClose_Some: "stripClose s = Some q \<Longrightarrow> \<exists>k. isCloser k \<and> s = k @ q"
proof (cases "stripPrefix ''%}'' s")
  case None
  assume "stripClose s = Some q"
  with None have "stripPrefixFold ''%25%7D'' s = Some q" by (simp add: stripClose_def)
  then have "s = ''%25%7D'' @ q \<or> s = ''%25%7d'' @ q" by (simp only: fold_closer)
  then show ?thesis unfolding isCloser_def by blast
next
  case (Some r)
  assume "stripClose s = Some q"
  with Some have "r = q" by (simp add: stripClose_def)
  with Some have "s = ''%}'' @ q" by (simp only: stripPrefix_iff)
  then show ?thesis unfolding isCloser_def by blast
qed

lemma suffix_split:
  "a @ b = c @ d \<Longrightarrow> length d \<le> length b \<Longrightarrow> \<exists>e. b = e @ d \<and> c = a @ e"
  by (auto simp: append_eq_append_conv2)

lemma stripClose_Nil: "stripClose [] = None"
  by (simp add: stripClose_def)

lemma stripClose_extend: "stripClose a = Some q \<Longrightarrow> stripClose (a @ b) = Some (q @ b)"
  using stripClose_Some [of a q] stripClose_closer by fastforce

lemma stripOpen_extend: "stripOpen a = Some q \<Longrightarrow> stripOpen (a @ b) = Some (q @ b)"
  using stripOpen_Some [of a q] stripOpen_opener by fastforce

lemma tagCloses_truncate_aux: "s = q @ r \<Longrightarrow> tagCloses s = r \<Longrightarrow> tagCloses q = []"
proof (induction s arbitrary: q rule: tagCloses.induct)
  case (1 s)
  show ?case
  proof (cases "stripClose s")
    case None
    with "1.prems"(2) have "s = r" by (simp add: tagCloses.simps [of s])
    with "1.prems"(1) have "q = []" by simp
    then show ?thesis by (simp add: tagCloses.simps [of "[]"] stripClose_Nil)
  next
    case (Some q2)
    with "1.prems"(2) have t: "tagCloses q2 = r" by (simp add: tagCloses.simps [of s])
    from stripClose_Some [OF Some] obtain k where k: "isCloser k" "s = k @ q2" by blast
    from t tagCloses_length [of q2] have "length r \<le> length q2" by simp
    from suffix_split [of k q2 q r] k(2) "1.prems"(1) this
    obtain e where e: "q2 = e @ r" "q = k @ e" by auto
    from "1.IH" [OF Some e(1) t] have "tagCloses e = []" .
    with stripClose_closer [OF k(1), of e] e(2) show ?thesis
      by (simp add: tagCloses.simps [of "k @ e"])
  qed
qed

lemma tagCloses_truncate: "tagCloses (q @ r) = r \<Longrightarrow> tagCloses q = []"
  by (rule tagCloses_truncate_aux [OF refl])

lemma tagBody_truncate: "tagBody (m @ r) = Some (x, r) \<Longrightarrow> tagBody m = Some (x, [])"
proof (induction m arbitrary: x)
  case Nil
  then show ?case using tagBody_length [of r x r] by simp
next
  case (Cons c cs)
  show ?case
  proof (cases "stripClose (c # cs @ r)")
    case None
    have n: "stripClose (c # cs) = None"
    proof (cases "stripClose (c # cs)")
      case (Some q)
      from stripClose_extend [OF this, of r] None show ?thesis by simp
    qed simp
    from Cons.prems None obtain x' where x': "c \<noteq> NEWLINE" "tagBody (cs @ r) = Some (x', r)" "x = c # x'"
      by (auto split: if_splits option.splits)
    from Cons.IH [OF x'(2)] n x' show ?thesis by simp
  next
    case (Some q)
    with Cons.prems have x: "x = []" and t: "tagCloses q = r" by simp_all
    from stripClose_Some [OF Some] obtain k where k: "isCloser k" "c # cs @ r = k @ q" by blast
    from t tagCloses_length [of q] have "length r \<le> length q" by simp
    from suffix_split [of "c # cs" r k q] k(2) this obtain e where e: "q = e @ r" "c # cs = k @ e"
      by (metis suffix_split append_Cons)
    from tagCloses_truncate [of e r] t e(1) have "tagCloses e = []" by simp
    moreover from stripClose_closer [OF k(1), of e] e(2) have "stripClose (c # cs) = Some e"
      by simp
    ultimately show ?thesis using x by simp
  qed
qed

lemma tagBody_extend: "tagBody a \<noteq> None \<Longrightarrow> tagBody (a @ b) \<noteq> None"
proof (induction a)
  case Nil
  then show ?case by simp
next
  case (Cons c cs)
  show ?case
  proof (cases "stripClose (c # cs @ b)")
    case None
    have n: "stripClose (c # cs) = None"
    proof (cases "stripClose (c # cs)")
      case (Some q)
      from stripClose_extend [OF this, of b] None show ?thesis by simp
    qed simp
    with Cons.prems have "c \<noteq> NEWLINE" "tagBody cs \<noteq> None"
      by (auto split: if_splits option.splits)
    with Cons.IH None show ?thesis by (auto split: option.splits)
  next
    case (Some q)
    then show ?thesis by simp
  qed
qed

lemma tagOpens_extend: "tagOpens a \<noteq> None \<Longrightarrow> tagOpens (a @ b) \<noteq> None"
proof (induction a rule: tagOpens.induct)
  case (1 s)
  from "1.prems" obtain q where q: "stripOpen s = Some q"
    by (auto simp: tagOpens.simps [of s] split: option.splits)
  note e = stripOpen_extend [OF q, of b]
  show ?case
  proof (cases "tagOpens q")
    case None
    with "1.prems" q have "tagBody q \<noteq> None" by (simp add: tagOpens.simps [of s])
    from tagBody_extend [OF this, of b] e show ?thesis
      by (auto simp: tagOpens.simps [of "s @ b"] split: option.splits)
  next
    case (Some res)
    with "1.IH" [OF q] have "tagOpens (q @ b) \<noteq> None" by simp
    with e show ?thesis by (auto simp: tagOpens.simps [of "s @ b"] split: option.splits)
  qed
qed

lemma tagOpens_truncate_aux:
  "s = m @ r \<Longrightarrow> tagOpens s = Some (x, r) \<Longrightarrow> tagOpens m = Some (x, [])"
proof (induction s arbitrary: m rule: tagOpens.induct)
  case (1 s)
  from "1.prems"(2) obtain q where q: "stripOpen s = Some q"
    by (auto simp: tagOpens.simps [of s] split: option.splits)
  from stripOpen_Some [OF q] obtain k where k: "isOpener k" "s = k @ q" by blast
  have split: "\<exists>e. q = e @ r \<and> m = k @ e" if "length r \<le> length q"
    using suffix_split [of k q m r] k(2) "1.prems"(1) that by auto
  show ?case
  proof (cases "tagOpens q")
    case None
    with "1.prems"(2) q have b: "tagBody q = Some (x, r)" by (simp add: tagOpens.simps [of s])
    from tagBody_length [OF b] split obtain e where e: "q = e @ r" "m = k @ e" by auto
    from tagBody_truncate [of e r x] b e(1) have tb: "tagBody e = Some (x, [])" by simp
    have "tagOpens e = None"
      using tagOpens_extend [of e r] None e(1) by (cases "tagOpens e") auto
    with tb stripOpen_opener [OF k(1), of e] e(2) show ?thesis
      by (simp add: tagOpens.simps [of "k @ e"])
  next
    case (Some res)
    with "1.prems"(2) q have t: "tagOpens q = Some (x, r)" by (simp add: tagOpens.simps [of s])
    from tagOpens_length [OF t] split obtain e where e: "q = e @ r" "m = k @ e" by auto
    from "1.IH" [OF q e(1) t] have "tagOpens e = Some (x, [])" .
    with stripOpen_opener [OF k(1), of e] e(2) show ?thesis
      by (simp add: tagOpens.simps [of "k @ e"])
  qed
qed

lemma tagOpens_truncate: "tagOpens (m @ r) = Some (x, r) \<Longrightarrow> tagOpens m = Some (x, [])"
  by (rule tagOpens_truncate_aux [OF refl])

lemma FindStringSubmatch2_of_match:
  assumes "tagsToGo_match_at (m @ r) = Some (x, r)" and "m = c # cs" and "c \<noteq> BSLASH"
  shows "tagsToGo_FindStringSubmatch2 m = Some x"
proof -
  from assms have "tagOpens (m @ r) = Some (x, r)" by (simp add: tagsToGo_match_at_def)
  from tagOpens_truncate [OF this] assms(2,3) show ?thesis
    by (simp add: tagsToGo_match_at_def)
qed


section \<open>The second pass, tag by tag\<close>

text \<open>
  \<open>tagsToGo_absent pre s\<close>: no match of \<open>tagsToGo\<close> begins inside \<open>pre\<close> when \<open>s\<close> follows
  it, so that the pass copies \<open>pre\<close> and a match at the head of \<open>s\<close> is the next one.
\<close>

fun tagsToGo_absent :: "string \<Rightarrow> string \<Rightarrow> bool" where
  "tagsToGo_absent [] s = True"
| "tagsToGo_absent (c # cs) s = (tagsToGo_match_at (c # cs @ s) = None \<and> tagsToGo_absent cs s)"

text \<open>What follows a replacement: the rest of the pass, with the replacement in front.\<close>

definition andThen ::
  "string \<Rightarrow> panic + (string \<times> usedVars) \<Rightarrow> panic + (string \<times> usedVars)" where
  "andThen rep rest = (case rest of Inl e \<Rightarrow> Inl e | Inr (out, u) \<Rightarrow> Inr (rep @ out, u))"

lemma andThen_Nil: "andThen [] r = r"
  by (auto simp: andThen_def split: sum.splits)

lemma andThen_append: "andThen (a @ b) r = andThen a (andThen b r)"
  by (auto simp: andThen_def split: sum.splits)

lemma tagsToGo_ReplaceAll_skip:
  "tagsToGo_absent pre s \<Longrightarrow>
   tagsToGo_ReplaceAll used (pre @ s) = andThen pre (tagsToGo_ReplaceAll used s)"
proof (induction pre)
  case Nil
  show ?case by (simp add: andThen_Nil)
next
  case (Cons c cs)
  then show ?case by (auto simp: andThen_def split: sum.splits)
qed

lemma tagsToGo_ReplaceAll_match:
  assumes "tagsToGo_match_at (m @ r) = Some (x, r)"
  shows "tagsToGo_ReplaceAll used (m @ r) =
           (case tagFunc used m of
              Inl e \<Rightarrow> Inl e
            | Inr (rep, used') \<Rightarrow> andThen rep (tagsToGo_ReplaceAll used' r))"
proof (cases m)
  case Nil
  with assms tagsToGo_match_at_length [of r x r] show ?thesis by simp
next
  case (Cons c cs)
  with assms show ?thesis
    by (auto simp: andThen_def split: sum.splits)
qed

lemma tagFunc_escaped: "tagFunc used (BSLASH # t) = Inr (t, used)"
  by (simp add: tagFunc_def)

lemma match_nonempty: "tagsToGo_match_at (m @ r) = Some (x, r) \<Longrightarrow> m \<noteq> []"
  using tagsToGo_match_at_length [of r x r] by auto

lemma tagFunc_unescaped:
  assumes "tagsToGo_match_at (m @ r) = Some (x, r)" and "hd m \<noteq> BSLASH"
  shows "tagFunc used m =
           (let tagParts = strings_Split (strings_TrimSpace x) (CHR ''.'')
            in if length tagParts < 2 then Inr (m, used)
               else
                 (case upperFirst (tagParts ! 0) of
                    Inl e \<Rightarrow> Inl e
                  | Inr p0 \<Rightarrow>
                      (case upperFirst (tagParts ! 1) of
                         Inl e \<Rightarrow> Inl e
                       | Inr p1 \<Rightarrow>
                           Inr (replaceTemplateFallback (''{{.'' @ p0 @ ''.'' @ p1 @ ''}}''),
                                recordVar used p0 p1))))"
proof -
  from match_nonempty [OF assms(1)] obtain c cs where m: "m = c # cs" by (cases m) auto
  with assms(2) have c: "c \<noteq> BSLASH" by simp
  have f: "tagsToGo_FindStringSubmatch2 m = Some x"
    by (rule FindStringSubmatch2_of_match [OF assms(1) m c])
  show ?thesis
    unfolding tagFunc_def f by (simp add: m c)
qed

lemma replaceTemplateFallback_no_comma:
  "CHR '','' \<notin> set tag \<Longrightarrow> replaceTemplateFallback tag = tag"
proof -
  assume a: "CHR '','' \<notin> set tag"
  have "CHR '','' \<notin> set (take (length tag - 4) (drop 2 tag))"
    using a by (meson in_set_dropD in_set_takeD)
  then show ?thesis
    by (simp add: replaceTemplateFallback_def strings_SplitN2_def Let_def)
qed


lemma tagsToGo_match_at_escaped:
  assumes "tagsToGo_match_at (tag @ post) = Some (content, post)" and "hd tag \<noteq> BSLASH"
  shows "tagsToGo_match_at ((BSLASH # tag) @ post) = Some (content, post)"
proof -
  from match_nonempty [OF assms(1)] obtain c cs where m: "tag = c # cs" by (cases tag) auto
  with assms show ?thesis by (simp add: tagsToGo_match_at_def)
qed

subsection \<open>An escaped tag\<close>

text \<open>
  Claim C4.  Where the pass meets a backslash followed by a tag, it drops the backslash,
  copies the text of the tag unchanged, and goes on with the same index: the tag records
  nothing.
\<close>

theorem escaped_tag_kept:
  assumes absent: "tagsToGo_absent pre (BSLASH # tag @ post)"
    and match: "tagsToGo_match_at (tag @ post) = Some (content, post)"
    and tag: "hd tag \<noteq> BSLASH"
  shows "tagsToGo_ReplaceAll used (pre @ BSLASH # tag @ post)
           = andThen (pre @ tag) (tagsToGo_ReplaceAll used post)"
proof -
  have "tagsToGo_ReplaceAll used ((BSLASH # tag) @ post)
          = andThen tag (tagsToGo_ReplaceAll used post)"
    by (simp only: tagsToGo_ReplaceAll_match [OF tagsToGo_match_at_escaped [OF match tag]]
                   tagFunc_escaped sum.case prod.case)
  with tagsToGo_ReplaceAll_skip [OF absent, of used] show ?thesis
    by (simp add: andThen_append)
qed

subsection \<open>A tag with fewer than two segments\<close>

text \<open>
  Claim C3, as amended.  Where the pass meets an unescaped tag whose trimmed content has
  fewer than two dot-separated segments, whatever its comma clauses, it copies the text of
  the tag unchanged, raises no error there, and goes on with the same index.
\<close>

theorem malformed_tag_kept:
  assumes absent: "tagsToGo_absent pre (tag @ post)"
    and match: "tagsToGo_match_at (tag @ post) = Some (content, post)"
    and tag: "hd tag \<noteq> BSLASH"
    and segs: "length (strings_Split (strings_TrimSpace content) (CHR ''.'')) < 2"
  shows "tagsToGo_ReplaceAll used (pre @ tag @ post)
           = andThen (pre @ tag) (tagsToGo_ReplaceAll used post)"
proof -
  have "tagFunc used tag = Inr (tag, used)"
    using segs by (simp add: tagFunc_unescaped [OF match tag])
  then have "tagsToGo_ReplaceAll used (tag @ post) = andThen tag (tagsToGo_ReplaceAll used post)"
    by (simp add: tagsToGo_ReplaceAll_match [OF match])
  with tagsToGo_ReplaceAll_skip [OF absent, of used] show ?thesis
    by (simp add: andThen_append)
qed

subsection \<open>A tag with a namespace and a key\<close>

lemma asciiUpper_not_comma: "CHR '','' = asciiUpper c \<longleftrightarrow> CHR '','' = c"
  by (cases c) (auto simp: asciiUpper_def clearBit5_def)

text \<open>
  On segments that begin with an ASCII byte the pass does what the specification asks.
  Where it meets an unescaped tag whose trimmed content splits at the dots into at least
  two segments, the first two non-empty, beginning with an ASCII byte and without a comma,
  it puts \<^verbatim>\<open>{{.Ns.Key}}\<close> in its place: the first byte of each of the two segments is
  raised when it is an ASCII lower-case letter and kept otherwise, the rest of each segment
  is as written, further segments are dropped, and the pair is recorded in the index.
\<close>

theorem tag_becomes_directive:
  assumes absent: "tagsToGo_absent pre (tag @ post)"
    and match: "tagsToGo_match_at (tag @ post) = Some (content, post)"
    and tag: "hd tag \<noteq> BSLASH"
    and segs: "strings_Split (strings_TrimSpace content) (CHR ''.'') = (a # as) # (b # bs) # others"
    and ascii: "(of_char a :: nat) < 0x80" "(of_char b :: nat) < 0x80"
    and nocomma: "CHR '','' \<notin> set (a # as @ b # bs)"
  shows "tagsToGo_ReplaceAll used (pre @ tag @ post)
           = andThen (pre @ ''{{.'' @ asciiUpper a # as @ ''.'' @ asciiUpper b # bs @ ''}}'')
               (tagsToGo_ReplaceAll (recordVar used (asciiUpper a # as) (asciiUpper b # bs)) post)"
proof -
  let ?d = "''{{.'' @ asciiUpper a # as @ ''.'' @ asciiUpper b # bs @ ''}}''"
  have "CHR '','' \<notin> set ?d"
    using nocomma by (simp add: asciiUpper_not_comma)
  then have d: "replaceTemplateFallback ?d = ?d"
    by (rule replaceTemplateFallback_no_comma)
  have "tagFunc used tag = Inr (?d, recordVar used (asciiUpper a # as) (asciiUpper b # bs))"
    using ascii d by (simp add: tagFunc_unescaped [OF match tag] segs upperFirst_def toUpper1_def)
  then have "tagsToGo_ReplaceAll used (tag @ post)
               = andThen ?d (tagsToGo_ReplaceAll (recordVar used (asciiUpper a # as) (asciiUpper b # bs)) post)"
    by (simp add: tagsToGo_ReplaceAll_match [OF match])
  with tagsToGo_ReplaceAll_skip [OF absent, of used] show ?thesis
    by (simp add: andThen_append)
qed


theorem escaped_tag_kept_witness:
  "prepareTemplateTags (''this is a test '' @ BSLASH # ''{% template.tag %} and done'')
     = Inr (''this is a test {% template.tag %} and done'', Map.empty)"
proof -
  have e: "escapeGo_ReplaceAll (''this is a test '' @ BSLASH # ''{% template.tag %} and done'')
             = ''this is a test '' @ BSLASH # ''{% template.tag %}'' @ '' and done''"
    by (simp add: eval_simps)
  have a: "tagsToGo_absent ''this is a test '' (BSLASH # ''{% template.tag %}'' @ '' and done'')"
    by (simp add: eval_simps)
  have m: "tagsToGo_match_at (''{% template.tag %}'' @ '' and done'')
             = Some ('' template.tag '', '' and done'')"
    by (simp add: eval_simps)
  have r: "tagsToGo_ReplaceAll Map.empty '' and done'' = Inr ('' and done'', Map.empty)"
    by (simp add: eval_simps)
  from escaped_tag_kept [OF a m, of Map.empty] r show ?thesis
    unfolding prepareTemplateTags_def e
    by (simp add: andThen_def del: tagsToGo_ReplaceAll.simps)
qed

theorem malformed_tag_kept_witness:
  "prepareTemplateTags ''Hello {%world%}'' = Inr (''Hello {%world%}'', Map.empty)"
proof -
  have e: "escapeGo_ReplaceAll ''Hello {%world%}'' = ''Hello '' @ ''{%world%}'' @ []"
    by (simp add: eval_simps)
  have a: "tagsToGo_absent ''Hello '' (''{%world%}'' @ [])"
    by (simp add: eval_simps)
  have m: "tagsToGo_match_at (''{%world%}'' @ []) = Some (''world'', [])"
    by (simp add: eval_simps)
  have s: "length (strings_Split (strings_TrimSpace ''world'') (CHR ''.'')) < 2"
    by (simp add: eval_simps)
  from malformed_tag_kept [OF a m _ s, of Map.empty] show ?thesis
    unfolding prepareTemplateTags_def e
    by (simp add: andThen_def del: tagsToGo_ReplaceAll.simps(2))
qed

text \<open>
  The other half of the claim fails: a tag with two dot-separated segments that carries a
  fallback clause and one more comma clause is not left as it is, but expanded.
\<close>

theorem comma_clauses_counterexample:
  "map_sum id fst (prepareTemplateTags ''Hello {%a.b,fallback=foo,another%}'')
     = Inr ''Hello {{if .A.B}}{{.A.B}}{{else}}foo,another{{end}}''
   \<and> map_sum id fst (prepareTemplateTags ''Hello {%a.b,fallback=foo,another%}'')
     \<noteq> Inr ''Hello {%a.b,fallback=foo,another%}''"
  by (simp add: eval_simps)

theorem tag_becomes_directive_witness:
  "prepareTemplateTags ''Hello {% asd.zxc %}!'' = Inr (''Hello {{.Asd.Zxc}}!'', [''Asd'' \<mapsto> [''Zxc'']])"
proof -
  have e: "escapeGo_ReplaceAll ''Hello {% asd.zxc %}!'' = ''Hello '' @ ''{% asd.zxc %}'' @ ''!''"
    by (simp add: eval_simps)
  have a: "tagsToGo_absent ''Hello '' (''{% asd.zxc %}'' @ ''!'')"
    by (simp add: eval_simps)
  have m: "tagsToGo_match_at (''{% asd.zxc %}'' @ ''!'') = Some ('' asd.zxc '', ''!'')"
    by (simp add: eval_simps)
  have s: "strings_Split (strings_TrimSpace '' asd.zxc '') (CHR ''.'')
             = (CHR ''a'' # ''sd'') # (CHR ''z'' # ''xc'') # []"
    by (simp add: eval_simps)
  have r: "tagsToGo_ReplaceAll u ''!'' = Inr (''!'', u)" for u
    by (simp add: eval_simps)
  from tag_becomes_directive [OF a m _ s, of Map.empty] show ?thesis
    unfolding prepareTemplateTags_def e
    by (simp add: andThen_def r asciiUpper_def clearBit5_def recordVar_def lookupVars_def
             del: tagsToGo_ReplaceAll.simps)
qed

text \<open>
  Claim C1.  The tag is to become \<^verbatim>\<open>{{.Ns.Key}}\<close> with the first character of each
  segment in upper case and the rest as written.  The code raises \<open>part[0:1]\<close>, the first
  byte, not the first character.  For the tag \<open>{%\<close>\<open>\'emile.x%}\<close>, whose first letter is
  C3 A9 in UTF-8, \<open>strings.ToUpper\<close> of the lone byte C3 gives U+FFFD: the output is
  \<^verbatim>\<open>{{.\<close> EF BF BD A9 \<^verbatim>\<open>mile.X}}\<close>, not the directive with the capital letter (C3 89).
\<close>

theorem non_ascii_segment_mangled:
  "map_sum id fst (prepareTemplateTags (''{%'' @ [CHR 0xC3, CHR 0xA9] @ ''mile.x%}''))
     = Inr (''{{.'' @ [CHR 0xEF, CHR 0xBF, CHR 0xBD, CHR 0xA9] @ ''mile.X}}'')
   \<and> map_sum id fst (prepareTemplateTags (''{%'' @ [CHR 0xC3, CHR 0xA9] @ ''mile.x%}''))
     \<noteq> Inr (''{{.'' @ [CHR 0xC3, CHR 0x89] @ ''mile.X}}'')"
  by (simp add: eval_simps)

subsection \<open>A tag with a fallback clause\<close>

text \<open>
  Claim C2.  The content of the tag is split at the dots before the fallback clause is
  looked at, and only the first two segments are used: the fallback text ends at its first
  dot.  For \<^verbatim>\<open>{%inbox.name,fallback=Hello. World%}\<close> the text emitted is \<open>Hello\<close>, not
  \<open>Hello. World\<close>.
\<close>

theorem fallback_text_cut_at_dot:
  "prepareTemplateTags ''{%inbox.name,fallback=Hello. World%}''
     = Inr (''{{if .Inbox.Name}}{{.Inbox.Name}}{{else}}Hello{{end}}'',
            [''Inbox'' \<mapsto> [''Name,fallback=Hello'']])"
  by (simp add: eval_simps)

section \<open>The first pass: native directives\<close>

text \<open>
  \<open>escapeGo_absent pre s\<close>: no match of the pattern begins inside \<open>pre\<close> when \<open>s\<close>
  follows it.
\<close>

fun escapeGo_absent :: "string \<Rightarrow> string \<Rightarrow> bool" where
  "escapeGo_absent [] s = True"
| "escapeGo_absent (c # cs) s = (escapeGo_match_at (c # cs @ s) = None \<and> escapeGo_absent cs s)"

lemma escapeGo_lazy_split:
  "escapeGo_lazy s = Some (x, r) \<Longrightarrow> s = x @ ''}}'' @ r \<and> NEWLINE \<notin> set x"
proof (induction s arbitrary: x)
  case Nil
  then show ?case by simp
next
  case (Cons c cs)
  show ?case
  proof (cases "stripPrefix ''}}'' (c # cs)")
    case None
    with Cons.prems obtain x' where x': "c \<noteq> NEWLINE" "escapeGo_lazy cs = Some (x', r)" "x = c # x'"
      by (auto split: if_splits option.splits)
    from Cons.IH [OF x'(2)] x' show ?thesis by simp
  next
    case (Some q)
    with Cons.prems have xq: "x = []" "q = r" by simp_all
    from Some have "c # cs = ''}}'' @ q" by (simp only: stripPrefix_iff)
    with xq show ?thesis by simp
  qed
qed

lemma escapeGo_match_at_split:
  assumes "escapeGo_match_at s = Some (m, r)"
  shows "s = m @ r \<and> (\<exists>x. m = ''{{'' @ x @ ''}}'' \<and> NEWLINE \<notin> set x)"
proof -
  from assms obtain q where q: "stripPrefix ''{{'' s = Some q"
    by (auto simp: escapeGo_match_at_def split: option.splits)
  with assms obtain x where x: "escapeGo_lazy q = Some (x, r)" "m = ''{{'' @ x @ ''}}''"
    by (auto simp: escapeGo_match_at_def split: option.splits)
  from q have "s = ''{{'' @ q" by (simp only: stripPrefix_iff)
  with escapeGo_lazy_split [OF x(1)] x(2) show ?thesis by auto
qed

lemma escapeGo_ReplaceAll_skip:
  "escapeGo_absent pre s \<Longrightarrow> escapeGo_ReplaceAll (pre @ s) = pre @ escapeGo_ReplaceAll s"
  by (induction pre) auto

lemma escapeGo_ReplaceAll_match:
  assumes "escapeGo_match_at s = Some (m, r)"
  shows "escapeGo_ReplaceAll s = escapeGoFunc m @ escapeGo_ReplaceAll r"
proof (cases s)
  case Nil
  with assms show ?thesis by (simp add: escapeGo_match_at_def)
next
  case (Cons c cs)
  with assms show ?thesis by simp
qed

text \<open>
  Claim C5, as amended.  The first pass scans the raw input from left to right.  Where it
  finds a match \<open>m\<close> of the pattern, which is \<^verbatim>\<open>{{\<close>, a text without a line break, and
  \<^verbatim>\<open>}}\<close>, it copies what precedes the match, writes the directive \<^verbatim>\<open>{{ "m" }}\<close> that
  prints \<open>m\<close> as a quoted string, and goes on after the match; a match that contains a
  double quote is written as it is.
\<close>

theorem directive_wrapped:
  assumes absent: "escapeGo_absent pre s"
    and match: "escapeGo_match_at s = Some (m, r)"
  shows "s = m @ r
       \<and> (\<exists>x. m = ''{{'' @ x @ ''}}'' \<and> NEWLINE \<notin> set x)
       \<and> escapeGo_ReplaceAll (pre @ s)
           = pre @ (if DQUOTE \<in> set m then m else ''{{ '' @ [DQUOTE] @ m @ [DQUOTE] @ '' }}'')
               @ escapeGo_ReplaceAll r"
  using escapeGo_match_at_split [OF match] escapeGo_ReplaceAll_skip [OF absent]
        escapeGo_ReplaceAll_match [OF match]
  by (simp add: escapeGoFunc_def)

theorem directive_wrapped_witness:
  "escapeGo_ReplaceAll ''this is a test {{ foo }} bar''
     = ''this is a test {{ '' @ [DQUOTE] @ ''{{ foo }}'' @ [DQUOTE] @ '' }} bar''
   \<and> escapeGo_ReplaceAll (''a {{ '' @ [DQUOTE] @ ''x'' @ [DQUOTE] @ '' }} b'')
     = ''a {{ '' @ [DQUOTE] @ ''x'' @ [DQUOTE] @ '' }} b''"
proof (intro conjI)
  have a: "escapeGo_absent ''this is a test '' ''{{ foo }} bar''"
    by (simp add: eval_simps)
  have m: "escapeGo_match_at ''{{ foo }} bar'' = Some (''{{ foo }}'', '' bar'')"
    by (simp add: eval_simps)
  have r: "escapeGo_ReplaceAll '' bar'' = '' bar''"
    by (simp add: eval_simps)
  from directive_wrapped [OF a m] r
  show "escapeGo_ReplaceAll ''this is a test {{ foo }} bar''
          = ''this is a test {{ '' @ [DQUOTE] @ ''{{ foo }}'' @ [DQUOTE] @ '' }} bar''"
    by (simp del: escapeGo_ReplaceAll.simps)
next
  have a: "escapeGo_absent ''a '' (''{{ '' @ [DQUOTE] @ ''x'' @ [DQUOTE] @ '' }} b'')"
    by (simp add: eval_simps)
  have m: "escapeGo_match_at (''{{ '' @ [DQUOTE] @ ''x'' @ [DQUOTE] @ '' }} b'')
             = Some (''{{ '' @ [DQUOTE] @ ''x'' @ [DQUOTE] @ '' }}'', '' b'')"
    by (simp add: eval_simps)
  have r: "escapeGo_ReplaceAll '' b'' = '' b''"
    by (simp add: eval_simps)
  from directive_wrapped [OF a m] r
  show "escapeGo_ReplaceAll (''a {{ '' @ [DQUOTE] @ ''x'' @ [DQUOTE] @ '' }} b'')
          = ''a {{ '' @ [DQUOTE] @ ''x'' @ [DQUOTE] @ '' }} b''"
    by (simp del: escapeGo_ReplaceAll.simps)
qed

text \<open>
  The second pass runs over the text that the first pass has written, the quoted strings
  included.  A placeholder tag inside a native directive is rewritten there: for
  \<^verbatim>\<open>{{ {%a.b%} }}\<close> the string handed to the engine is \<^verbatim>\<open>{{ {{.A.B}} }}\<close>, not the
  original text.
\<close>

theorem wrapped_directive_rewritten:
  "map_sum id fst (prepareTemplateTags ''{{ {%a.b%} }}'')
     = Inr (''{{ '' @ [DQUOTE] @ ''{{ {{.A.B}} }}'' @ [DQUOTE] @ '' }}'')
   \<and> map_sum id fst (prepareTemplateTags ''{{ {%a.b%} }}'')
     \<noteq> Inr (''{{ '' @ [DQUOTE] @ ''{{ {%a.b%} }}'' @ [DQUOTE] @ '' }}'')"
  by (simp add: eval_simps)

section \<open>Text without tags or directives\<close>

text \<open>Where neither pattern matches, both passes copy the text and record nothing.\<close>

lemma escapeGo_ReplaceAll_absent: "escapeGo_absent s [] \<Longrightarrow> escapeGo_ReplaceAll s = s"
  using escapeGo_ReplaceAll_skip [of s "[]"] by simp

lemma tagsToGo_ReplaceAll_absent:
  "tagsToGo_absent s [] \<Longrightarrow> tagsToGo_ReplaceAll used s = Inr (s, used)"
  using tagsToGo_ReplaceAll_skip [of s "[]" used] by (simp add: andThen_def)

lemma replaceVariables_output:
  "Execute E t (paramTree (fst (keysLoop ctx pk keys usedVars (Map.empty, h, log)))
                          (fst (snd (keysLoop ctx pk keys usedVars (Map.empty, h, log))))) = Inr out
   \<Longrightarrow> fst (replaceVariables E ctx t body keys pk usedVars h log) = (out, None)"
  by (auto simp: replaceVariables_def split: prod.splits sum.splits)

text \<open>
  An engine for texts without a closed action.  \<open>text/template\<close> takes a text without
  \<^verbatim>\<open>{{\<close> as a template that prints this text, whatever the data; where \<^verbatim>\<open>{{\<close> is not
  followed by \<^verbatim>\<open>}}\<close> it reports an unclosed action.  \<open>afterFirst p s\<close> is what follows
  the first occurrence of \<open>p\<close> in \<open>s\<close>.
\<close>

fun afterFirst :: "string \<Rightarrow> string \<Rightarrow> string option" where
  "afterFirst p [] = stripPrefix p []"
| "afterFirst p (c # cs) =
     (case stripPrefix p (c # cs) of
        Some r \<Rightarrow> Some r
      | None \<Rightarrow> afterFirst p cs)"

definition unclosedAction :: goerror where
  "unclosedAction = OtherError ''template: email:1: unclosed action''"

definition plainTextEngine :: "string engine" where
  "plainTextEngine =
     \<lparr>Parse = (\<lambda>f strict body.
        case afterFirst ''{{'' body of
          None \<Rightarrow> Inr body
        | Some r \<Rightarrow>
            (case afterFirst ''}}'' r of
               None \<Rightarrow> Inl unclosedAction
             | Some _ \<Rightarrow> Inl (OtherError ''actions are not modelled''))),
      Execute = (\<lambda>t tree. Inr t)\<rparr>"

text \<open>
  Claim C9, as amended.  For a text in which neither the tag pattern nor the directive
  pattern matches anywhere, \<open>prepareTemplateTags\<close> returns the text unchanged with an empty
  index; and when the engine parses this text and prints it as itself on every data,
  \<open>Text\<close> returns exactly the text and no error, whatever the capabilities.
\<close>

theorem plain_text_identity:
  assumes tags: "tagsToGo_absent body []"
    and dirs: "escapeGo_absent body []"
    and parse: "Parse E TextTemplate False body = Inr t"
    and exec: "\<forall>tree. Execute E t tree = Inr body"
  shows "prepareTemplateTags body = Inr (body, Map.empty)
       \<and> map_sum id fst (Text E ctx body keys parentKeys h log) = Inr (body, None)"
proof -
  have p: "prepareTemplateTags body = Inr (body, Map.empty)"
    by (simp add: prepareTemplateTags_def escapeGo_ReplaceAll_absent [OF dirs]
                  tagsToGo_ReplaceAll_absent [OF tags])
  have "fst (replaceVariables E ctx t body keys parentKeys Map.empty h log) = (body, None)"
    by (rule replaceVariables_output) (simp add: exec)
  with p parse show ?thesis
    by (simp add: Text_def)
qed

theorem plain_text_identity_witness:
  "prepareTemplateTags ''Hello {% world, 100% {sure}'' = Inr (''Hello {% world, 100% {sure}'', Map.empty)
   \<and> map_sum id fst (Text plainTextEngine () ''Hello {% world, 100% {sure}'' [(''Test'', TestKeys None)] () (\<lambda>r. Map.empty) [])
     = Inr (''Hello {% world, 100% {sure}'', None)"
proof -
  have a: "tagsToGo_absent ''Hello {% world, 100% {sure}'' []"
    by (simp add: eval_simps)
  have b: "escapeGo_absent ''Hello {% world, 100% {sure}'' []"
    by (simp add: eval_simps)
  have c: "Parse plainTextEngine TextTemplate False ''Hello {% world, 100% {sure}''
             = Inr ''Hello {% world, 100% {sure}''"
    by (simp add: plainTextEngine_def)
  have d: "\<forall>tree. Execute plainTextEngine ''Hello {% world, 100% {sure}'' tree
             = Inr ''Hello {% world, 100% {sure}''"
    by (simp add: plainTextEngine_def)
  show ?thesis by (rule plain_text_identity [OF a b c d])
qed

text \<open>
  The condition on the engine cannot be dropped.  In \<^verbatim>\<open>a {{ b\<close> there is no tag and
  nothing that the directive pattern matches, since \<^verbatim>\<open>{{\<close> is never closed.  The text
  reaches the engine as it is, the engine reports an unclosed action, and \<open>Text\<close> returns
  this error beside the text.
\<close>

theorem unclosed_action_counterexample:
  "tagsToGo_absent ''a {{ b'' []
   \<and> escapeGo_absent ''a {{ b'' []
   \<and> Text plainTextEngine () ''a {{ b'' [(''Test'', TestKeys None)] () (\<lambda>r. Map.empty) []
       = Inr ((''a {{ b'', Some unclosedAction), (\<lambda>r. Map.empty), [])"
  by (simp add: eval_simps Text_def plainTextEngine_def)

section \<open>The variable index\<close>

text \<open>
  The matches that \<open>tagsToGo.ReplaceAllStringFunc\<close> hands to the function literal, from
  left to right, each with the text of its second group.
\<close>

function tagsToGo_FindAll :: "string \<Rightarrow> (string \<times> string) list" where
  "tagsToGo_FindAll [] = []"
| "tagsToGo_FindAll (c # cs) =
     (case tagsToGo_match_at (c # cs) of
        None \<Rightarrow> tagsToGo_FindAll cs
      | Some (x, r) \<Rightarrow> (take (length (c # cs) - length r) (c # cs), x) # tagsToGo_FindAll r)"
  by pat_completeness auto
termination
proof (relation "measure length", goal_cases)
  case 1
  show ?case by simp
next
  case (2 c cs)
  show ?case by simp
next
  case (3 c cs x2 x r)
  from 3(1) 3(2) have "tagsToGo_match_at (c # cs) = Some (x, r)" by simp
  from tagsToGo_match_at_length [OF this] show ?case by simp
qed

text \<open>
  What the function literal does with a match: the segments of the trimmed content, the
  test that the match is not escaped and has two segments or more, and the namespace and
  the key it records, each with its first byte raised as \<open>strings.ToUpper(part[0:1])\<close>
  raises it.  The key is the whole second segment, a fallback clause included.
\<close>

definition tagSegments :: "string \<Rightarrow> string list" where
  "tagSegments content = strings_Split (strings_TrimSpace content) (CHR ''.'')"

definition normalized :: "string \<Rightarrow> string" where
  "normalized part = (case part of [] \<Rightarrow> [] | c # cs \<Rightarrow> toUpper1 c @ cs)"

definition isVariableTag :: "string \<times> string \<Rightarrow> bool" where
  "isVariableTag t = (hd (fst t) \<noteq> BSLASH \<and> 2 \<le> length (tagSegments (snd t)))"



text \<open>
  The index in the words of the specification: a namespace is mapped to the keys recorded
  with it, each key once, in the order of first occurrence; a namespace that no tag names
  has no entry.
\<close>

primrec firstSeen :: "'a list \<Rightarrow> 'a list" where
  "firstSeen [] = []"
| "firstSeen (x # xs) = x # removeAll x (firstSeen xs)"

definition keysOf :: "string \<Rightarrow> (string \<times> string) list \<Rightarrow> string list" where
  "keysOf ns vars = map snd (filter (\<lambda>v. fst v = ns) vars)"

definition variableIndex :: "(string \<times> string) list \<Rightarrow> usedVars" where
  "variableIndex vars ns =
     (if ns \<in> fst ` set vars then Some (firstSeen (keysOf ns vars)) else None)"

text \<open>\<open>part[0:1]\<close> panics on an empty segment.\<close>

definition hasEmptySegment :: "string \<times> string \<Rightarrow> bool" where
  "hasEmptySegment t = (tagSegments (snd t) ! 0 = [] \<or> tagSegments (snd t) ! 1 = [])"

subsection \<open>The text after a match is a suffix of the text\<close>

lemma tagCloses_suffix: "\<exists>m. s = m @ tagCloses s"
proof (induction s rule: tagCloses.induct)
  case (1 s)
  show ?case
  proof (cases "stripClose s")
    case None
    then show ?thesis by (simp add: tagCloses.simps [of s])
  next
    case (Some r)
    from stripClose_Some [OF Some] obtain k where k: "s = k @ r" by blast
    from "1.IH" [OF Some] obtain m where m: "r = m @ tagCloses r" by blast
    have "tagCloses s = tagCloses r" using Some by (simp add: tagCloses.simps [of s])
    with k m have "s = (k @ m) @ tagCloses s" by simp
    then show ?thesis by blast
  qed
qed

lemma tagBody_suffix: "tagBody s = Some (x, r) \<Longrightarrow> \<exists>m. s = m @ r"
proof (induction s arbitrary: x)
  case Nil
  then show ?case by simp
next
  case (Cons c cs)
  show ?case
  proof (cases "stripClose (c # cs)")
    case (Some q)
    with Cons.prems have r: "r = tagCloses q" by simp
    from stripClose_Some [OF Some] obtain k where k: "c # cs = k @ q" by blast
    from tagCloses_suffix [of q] obtain m where "q = m @ tagCloses q" by blast
    with k r have "c # cs = (k @ m) @ r" by simp
    then show ?thesis by blast
  next
    case None
    with Cons.prems obtain x' where "tagBody cs = Some (x', r)"
      by (auto split: if_splits option.splits)
    from Cons.IH [OF this] obtain m where "cs = m @ r" by blast
    then have "c # cs = (c # m) @ r" by simp
    then show ?thesis by blast
  qed
qed

lemma tagOpens_suffix: "tagOpens s = Some (x, r) \<Longrightarrow> \<exists>m. s = m @ r"
proof (induction s arbitrary: x r rule: tagOpens.induct)
  case (1 s)
  from "1.prems" obtain q where q: "stripOpen s = Some q"
    by (auto simp: tagOpens.simps [of s] split: option.splits)
  from stripOpen_Some [OF q] obtain k where k: "s = k @ q" by blast
  have "\<exists>m. q = m @ r"
  proof (cases "tagOpens q")
    case None
    with "1.prems" q have "tagBody q = Some (x, r)" by (simp add: tagOpens.simps [of s])
    then show ?thesis by (rule tagBody_suffix)
  next
    case (Some res)
    with "1.prems" q have "tagOpens q = Some (x, r)" by (simp add: tagOpens.simps [of s])
    then show ?thesis by (rule "1.IH" [OF q])
  qed
  then obtain m where "q = m @ r" by blast
  with k have "s = (k @ m) @ r" by simp
  then show ?case by blast
qed

lemma tagsToGo_match_at_suffix: "tagsToGo_match_at s = Some (x, r) \<Longrightarrow> \<exists>m. s = m @ r"
proof (cases s)
  case Nil
  assume "tagsToGo_match_at s = Some (x, r)"
  with Nil show ?thesis by (simp add: tagsToGo_match_at_def)
next
  case (Cons c cs)
  assume a: "tagsToGo_match_at s = Some (x, r)"
  show ?thesis
  proof (cases "c = BSLASH \<and> tagOpens cs \<noteq> None")
    case True
    with a Cons have "tagOpens cs = Some (x, r)" by (auto simp: tagsToGo_match_at_def)
    from tagOpens_suffix [OF this] obtain m where "cs = m @ r" by blast
    with Cons have "s = (c # m) @ r" by simp
    then show ?thesis by blast
  next
    case False
    with a Cons have "tagOpens s = Some (x, r)"
      by (auto simp: tagsToGo_match_at_def split: if_splits option.splits)
    then show ?thesis by (rule tagOpens_suffix)
  qed
qed

lemma tagsToGo_match_at_take:
  assumes "tagsToGo_match_at s = Some (x, r)"
  shows "s = take (length s - length r) s @ r"
proof -
  from tagsToGo_match_at_suffix [OF assms] obtain m where "s = m @ r" by blast
  then show ?thesis by simp
qed

subsection \<open>The pass records the variables of the tags in order\<close>


lemma upperFirst_returns: "part \<noteq> [] \<Longrightarrow> upperFirst part = Inr (normalized part)"
  by (cases part) (auto simp: upperFirst_def normalized_def)







subsection \<open>The pass returns unless a segment is empty\<close>

lemma tagsToGo_FindAll_match:
  assumes "tagsToGo_match_at (m @ r) = Some (x, r)"
  shows "tagsToGo_FindAll (m @ r) = (m, x) # tagsToGo_FindAll r"
proof -
  from match_nonempty [OF assms] obtain c cs where m: "m = c # cs" by (cases m) auto
  with assms show ?thesis by simp
qed

lemma tagFunc_returns:
  assumes match: "tagsToGo_match_at (m @ r) = Some (x, r)"
    and ok: "isVariableTag (m, x) \<Longrightarrow> \<not> hasEmptySegment (m, x)"
  shows "\<exists>rep used'. tagFunc used m = Inr (rep, used')"
proof (cases "hd m = BSLASH")
  case True
  from match_nonempty [OF match] True obtain t where "m = BSLASH # t" by (cases m) auto
  then show ?thesis by (simp add: tagFunc_escaped)
next
  case False
  note f = tagFunc_unescaped [OF match False, of used]
  show ?thesis
  proof (cases "length (tagSegments x) < 2")
    case True
    with f show ?thesis by (simp add: tagSegments_def)
  next
    case long: False
    with False have "isVariableTag (m, x)" by (simp add: isVariableTag_def)
    from ok [OF this] have "tagSegments x ! 0 \<noteq> []" "tagSegments x ! 1 \<noteq> []"
      by (simp_all add: hasEmptySegment_def)
    from upperFirst_returns [OF this(1)] upperFirst_returns [OF this(2)] long f
    show ?thesis by (simp add: tagSegments_def Let_def)
  qed
qed

lemma pass_returns:
  "\<forall>t \<in> set (tagsToGo_FindAll s). isVariableTag t \<longrightarrow> \<not> hasEmptySegment t
   \<Longrightarrow> \<exists>out idx. tagsToGo_ReplaceAll used s = Inr (out, idx)"
proof (induction "length s" arbitrary: s used rule: less_induct)
  case less
  show ?case
  proof (cases s)
    case Nil
    then show ?thesis by simp
  next
    case (Cons c cs)
    show ?thesis
    proof (cases "tagsToGo_match_at (c # cs)")
      case None
      with less.prems Cons
      have "\<forall>t \<in> set (tagsToGo_FindAll cs). isVariableTag t \<longrightarrow> \<not> hasEmptySegment t" by simp
      from less.hyps [OF _ this, of used] Cons
      obtain out idx where "tagsToGo_ReplaceAll used cs = Inr (out, idx)" by auto
      with None Cons show ?thesis by simp
    next
      case (Some xr)
      obtain x r where xr: "xr = (x, r)" by (cases xr)
      define m where "m = take (length s - length r) s"
      from Some xr Cons have match: "tagsToGo_match_at s = Some (x, r)" by simp
      from tagsToGo_match_at_take [OF match] have s: "s = m @ r" by (simp add: m_def)
      from match s have match': "tagsToGo_match_at (m @ r) = Some (x, r)" by simp
      from match_nonempty [OF match'] s have len: "length r < length s" by simp
      from less.prems s tagsToGo_FindAll_match [OF match']
      have here: "isVariableTag (m, x) \<Longrightarrow> \<not> hasEmptySegment (m, x)"
        and later: "\<forall>t \<in> set (tagsToGo_FindAll r). isVariableTag t \<longrightarrow> \<not> hasEmptySegment t"
        by simp_all
      from tagFunc_returns [OF match' here, of used]
      obtain rep used' where t: "tagFunc used m = Inr (rep, used')" by blast
      from less.hyps [OF len later, of used']
      obtain out idx where "tagsToGo_ReplaceAll used' r = Inr (out, idx)" by blast
      with t have "tagsToGo_ReplaceAll used (m @ r) = Inr (rep @ out, idx)"
        by (simp add: tagsToGo_ReplaceAll_match [OF match'] andThen_def)
      with s show ?thesis by blast
    qed
  qed
qed

lemma prepareTemplateTags_returns:
  "\<forall>t \<in> set (tagsToGo_FindAll (escapeGo_ReplaceAll body)). isVariableTag t \<longrightarrow> \<not> hasEmptySegment t
   \<Longrightarrow> \<exists>out idx. prepareTemplateTags body = Inr (out, idx)"
  unfolding prepareTemplateTags_def by (rule pass_returns)

subsection \<open>Recording one by one gives the index of the specification\<close>

lemma set_firstSeen: "set (firstSeen xs) = set xs"
  by (induction xs) auto

lemma distinct_firstSeen: "distinct (firstSeen xs)"
  by (induction xs) (auto simp: distinct_removeAll)



lemma set_keysOf: "set (keysOf ns vars) = {k. (ns, k) \<in> set vars}"
  by (force simp: keysOf_def)


lemma variableIndex_dom: "dom (variableIndex vars) = fst ` set vars"
  by (auto simp: variableIndex_def dom_def)

lemma variableIndex_keys:
  "variableIndex vars ns = Some ks \<Longrightarrow> distinct ks \<and> set ks = {k. (ns, k) \<in> set vars}"
  by (auto simp: variableIndex_def distinct_firstSeen set_firstSeen set_keysOf split: if_splits)


subsection \<open>The index returned\<close>



end
